theory Spec2Isabelle
  imports Main "HOL-Library.AList"
begin

section \<open>Data model\<close>

text \<open>
  The repository provider (GitPython) hands out commits, trees, blobs and diffs. A commit
  carries its hash (\<open>__str__\<close>), the author's name, the committed timestamp in seconds, its
  parent commits and its tree. A blob carries its path, its base name and its decoded text.
\<close>

record Blob =
  path :: string
  blob_name :: string
  data_stream :: string

datatype Tree = Tree (blobs: "Blob list") (trees: "Tree list")

datatype Commit =
  Commit (hexsha: string) (author_name: string) (committed_date: int)
         (parents: "Commit list") (tree: Tree)

record Diff =
  change_type :: string
  a_path :: string
  b_path :: string
  a_blob :: "Blob option"
  b_blob :: "Blob option"

text \<open>
  \<open>AnnotatedCommit.py\<close>: one record per raw commit. The records live in a store (a list,
  addressed by index); \<open>previous\<close> and \<open>next\<close> are references into that store, so that a
  record reached through a link is the very record the data set holds.
\<close>

record AnnotatedCommit =
  commit :: Commit
  numberOfActiveDevelopers :: "int option"
  daysSincePreviousCommitByDeveloper :: "int option"
  numberOfCommitsInLast24h :: "int option"
  levenshteinDistance :: "int option"
  loc :: "int option"
  deltaLoc :: "int option"
  cyclomaticComplexity :: "int option"
  deltaCyclomaticComplexity :: "int option"
  increaseOfComplexityInComplexFunctions :: "int option"
  decreaseOfComplexityInComplexFunctions :: "int option"
  functionsCount :: "int option"
  deltaFunctions :: "int option"
  previous :: "nat option"
  next_commit :: "nat option"

definition new_AnnotatedCommit :: "Commit \<Rightarrow> AnnotatedCommit" where
  "new_AnnotatedCommit c =
     \<lparr> commit = c, numberOfActiveDevelopers = None,
       daysSincePreviousCommitByDeveloper = None, numberOfCommitsInLast24h = None,
       levenshteinDistance = None, loc = None, deltaLoc = None,
       cyclomaticComplexity = None, deltaCyclomaticComplexity = None,
       increaseOfComplexityInComplexFunctions = None,
       decreaseOfComplexityInComplexFunctions = None,
       functionsCount = None, deltaFunctions = None, previous = None, next_commit = None \<rparr>"

datatype error = GitCommandFailed | NoCommitsFound | IndexError | AttributeError | TypeError

section \<open>gitlyze.py: the commit chain builder\<close>

text \<open>
  \<open>createDataSet\<close>. The provider's \<open>iter_commits\<close> either raises \<open>GitCommandError\<close>
  (\<open>Inl\<close>) or yields the log as the provider orders it; the code reverses it. One loop
  iteration allocates the record of the next raw commit, links it with the record allocated
  before it, and appends it to \<open>data\<close> when the interval, parent-count and filter tests pass.
  \<open>filter_match\<close> is the predicate of the \<open>filters\<close> module.
\<close>

type_synonym store = "AnnotatedCommit list"

definition analyzable ::
  "(Commit \<Rightarrow> string list \<Rightarrow> string list \<Rightarrow> bool) \<Rightarrow> int \<Rightarrow> int \<Rightarrow> string list \<Rightarrow> string list
     \<Rightarrow> Commit \<Rightarrow> bool" where
  "analyzable filter_match startTime endTime filtered_authors filtered_commits c \<longleftrightarrow>
     committed_date c > startTime \<and> committed_date c < endTime \<and> length (parents c) = 1
     \<and> \<not> filter_match c filtered_authors filtered_commits"

definition createDataSet_step ::
  "(Commit \<Rightarrow> string list \<Rightarrow> string list \<Rightarrow> bool) \<Rightarrow> int \<Rightarrow> int \<Rightarrow> string list \<Rightarrow> string list
     \<Rightarrow> Commit \<Rightarrow> store \<times> nat list \<times> nat option \<Rightarrow> store \<times> nat list \<times> nat option" where
  "createDataSet_step filter_match startTime endTime filtered_authors filtered_commits raw st =
     (case st of (heap, data, current) \<Rightarrow>
        let previous_ref = current;
            current_ref = length heap;
            heap1 = heap @ [(new_AnnotatedCommit raw)\<lparr>previous := previous_ref\<rparr>];
            heap2 = (case previous_ref of
                       None \<Rightarrow> heap1
                     | Some p \<Rightarrow> heap1[p := (heap1 ! p)\<lparr>next_commit := Some current_ref\<rparr>])
        in (heap2,
            (if analyzable filter_match startTime endTime filtered_authors filtered_commits raw
             then data @ [current_ref] else data),
            Some current_ref))"

definition createDataSet ::
  "(Commit \<Rightarrow> string list \<Rightarrow> string list \<Rightarrow> bool) \<Rightarrow> unit + Commit list \<Rightarrow> int \<Rightarrow> int
     \<Rightarrow> string list \<Rightarrow> string list \<Rightarrow> error + store \<times> nat list" where
  "createDataSet filter_match iter_commits startTime endTime filtered_authors filtered_commits =
     (case iter_commits of
        Inl _ \<Rightarrow> Inl GitCommandFailed
      | Inr log \<Rightarrow>
          (case fold (createDataSet_step filter_match startTime endTime filtered_authors
                        filtered_commits) (rev log) ([], [], None) of
             (heap, data, _) \<Rightarrow> if length data = 0 then Inl NoCommitsFound else Inr (heap, data)))"

section \<open>gitanalyses.py: the windowed activity analyzers\<close>

text \<open>
  Each analyzer runs over \<open>data\<close> and, for a record \<open>c\<close>, follows the \<open>previous\<close> links
  from \<open>c.previous\<close> for as long as the committed date stays above the cut-off. The links may
  in principle form a cycle, so the walks are partial: \<open>None\<close> means that the loop never ends.
  \<open>committers\<close> is the Python set, kept as a list without duplicates.
\<close>

partial_function (option) activeDevelopers_walk ::
  "store \<Rightarrow> int \<Rightarrow> nat option \<Rightarrow> string list \<Rightarrow> string list option" where
  "activeDevelopers_walk heap cutOff prev committers =
     (case prev of
        None \<Rightarrow> Some committers
      | Some p \<Rightarrow>
          if committed_date (commit (heap ! p)) > cutOff
          then activeDevelopers_walk heap cutOff (previous (heap ! p))
                 (List.insert (author_name (commit (heap ! p))) committers)
          else Some committers)"

fun analyzeNumberOfActiveDevelopers :: "store \<Rightarrow> nat list \<Rightarrow> int \<Rightarrow> store option" where
  "analyzeNumberOfActiveDevelopers heap [] activeCommitterInterval = Some heap"
| "analyzeNumberOfActiveDevelopers heap (c # data) activeCommitterInterval =
     (let cutOff = committed_date (commit (heap ! c)) - activeCommitterInterval in
      case activeDevelopers_walk heap cutOff (previous (heap ! c)) [] of
        None \<Rightarrow> None
      | Some committers \<Rightarrow>
          analyzeNumberOfActiveDevelopers
            (heap[c := (heap ! c)\<lparr>numberOfActiveDevelopers := Some (int (length committers))\<rparr>])
            data activeCommitterInterval)"

text \<open>
  Python's \<open>int(x / 86400)\<close> on whole seconds: the quotient truncated towards zero.
\<close>

definition int_trunc_div :: "int \<Rightarrow> int \<Rightarrow> int" where
  "int_trunc_div a b = (if a < 0 then - ((- a) div b) else a div b)"

text \<open>
  The walk of \<open>analyzeDaysSincePreviousCommit\<close> returns the value to assign, if the loop
  reaches the assignment before it leaves (\<open>Assign d\<close>), or \<open>NoAssignment\<close>.
\<close>

datatype assignment = NoAssignment | Assign int

partial_function (option) daysSincePreviousCommit_walk ::
  "store \<Rightarrow> int \<Rightarrow> nat option \<Rightarrow> Commit \<Rightarrow> assignment option" where
  "daysSincePreviousCommit_walk heap cutOff prev c =
     (case prev of
        None \<Rightarrow> Some NoAssignment
      | Some p \<Rightarrow>
          if committed_date (commit (heap ! p)) > cutOff
          then (if author_name (commit (heap ! p)) = author_name c
                then Some (Assign (int_trunc_div
                        (committed_date c - committed_date (commit (heap ! p))) (60 * 60 * 24)))
                else daysSincePreviousCommit_walk heap cutOff (previous (heap ! p)) c)
          else Some NoAssignment)"

fun analyzeDaysSincePreviousCommit :: "store \<Rightarrow> nat list \<Rightarrow> int \<Rightarrow> store option" where
  "analyzeDaysSincePreviousCommit heap [] activeCommitterInterval = Some heap"
| "analyzeDaysSincePreviousCommit heap (c # data) activeCommitterInterval =
     (let cutOff = committed_date (commit (heap ! c)) - activeCommitterInterval in
      case daysSincePreviousCommit_walk heap cutOff (previous (heap ! c)) (commit (heap ! c)) of
        None \<Rightarrow> None
      | Some NoAssignment \<Rightarrow> analyzeDaysSincePreviousCommit heap data activeCommitterInterval
      | Some (Assign d) \<Rightarrow>
          analyzeDaysSincePreviousCommit
            (heap[c := (heap ! c)\<lparr>daysSincePreviousCommitByDeveloper := Some d\<rparr>])
            data activeCommitterInterval)"

partial_function (option) commitsInSameDay_walk ::
  "store \<Rightarrow> int \<Rightarrow> nat option \<Rightarrow> int \<Rightarrow> int option" where
  "commitsInSameDay_walk heap cutOff prev n =
     (case prev of
        None \<Rightarrow> Some n
      | Some p \<Rightarrow>
          if committed_date (commit (heap ! p)) > cutOff
          then commitsInSameDay_walk heap cutOff (previous (heap ! p)) (n + 1)
          else Some n)"

fun analyzeNumberOfCommitsInSameDay :: "store \<Rightarrow> nat list \<Rightarrow> store option" where
  "analyzeNumberOfCommitsInSameDay heap [] = Some heap"
| "analyzeNumberOfCommitsInSameDay heap (c # data) =
     (let cutOff = committed_date (commit (heap ! c)) - 60 * 60 * 24 in
      case commitsInSameDay_walk heap cutOff (previous (heap ! c)) 0 of
        None \<Rightarrow> None
      | Some n \<Rightarrow>
          analyzeNumberOfCommitsInSameDay
            (heap[c := (heap ! c)\<lparr>numberOfCommitsInLast24h := Some n\<rparr>]) data)"

section \<open>sizeandcomplexity.py\<close>

text \<open>
  Modelled from the spec: the \<open>BlobStats\<close> class (its module is not part of the sources):
  lines of code, cyclomatic complexity and function count of one file, all zero when created.
\<close>

record BlobStats =
  bs_loc :: int
  bs_cyclomaticComplexity :: int
  bs_functions :: int

definition new_BlobStats :: BlobStats where
  "new_BlobStats = \<lparr> bs_loc = 0, bs_cyclomaticComplexity = 0, bs_functions = 0 \<rparr>"

text \<open>
  One entry of the function list that the complexity parser (lizard) returns for a file name
  and a text. The parser and \<open>extensions.extension_supported\<close> are parameters of the model.
\<close>

record FunctionInfo =
  name :: string
  nloc :: int
  cyclomatic_complexity :: int

type_synonym parser = "string \<Rightarrow> string \<Rightarrow> FunctionInfo list"

text \<open>
  A Python dict is an association list in insertion order with distinct keys:
  \<open>d[k] = v\<close> is \<open>AList.update\<close>, \<open>d.pop(k, None)\<close> is \<open>AList.delete\<close>, \<open>k in d\<close> and \<open>d[k]\<close>
  read \<open>map_of\<close>, \<open>d.items()\<close> is the list itself.
\<close>

definition dict_update :: "('k \<times> 'v) list \<Rightarrow> ('k \<times> 'v) list \<Rightarrow> ('k \<times> 'v) list" where
  "dict_update d other = fold (\<lambda>(k, v) acc. AList.update k v acc) other d"

definition blob_stats :: "parser \<Rightarrow> Blob \<Rightarrow> BlobStats" where
  "blob_stats analyze_source_code blob =
     fold (\<lambda>function bs.
             bs\<lparr> bs_loc := bs_loc bs + nloc function,
                 bs_cyclomaticComplexity := bs_cyclomaticComplexity bs + cyclomatic_complexity function,
                 bs_functions := bs_functions bs + 1 \<rparr>)
          (analyze_source_code (blob_name blob) (data_stream blob)) new_BlobStats"

fun all_blobs_in_tree :: "(string \<Rightarrow> bool) \<Rightarrow> Tree \<Rightarrow> (string \<times> Blob) list" where
  "all_blobs_in_tree extension_supported (Tree bs ts) =
     fold (\<lambda>subtree acc. dict_update acc (all_blobs_in_tree extension_supported subtree)) ts
       (fold (\<lambda>blob acc. if extension_supported (path blob)
                           then AList.update (path blob) blob acc else acc) bs [])"

fun analyze_tree :: "(string \<Rightarrow> bool) \<Rightarrow> parser \<Rightarrow> Tree \<Rightarrow> (string \<times> BlobStats) list" where
  "analyze_tree extension_supported analyze_source_code (Tree bs ts) =
     fold (\<lambda>subtree acc.
             dict_update acc (analyze_tree extension_supported analyze_source_code subtree)) ts
       (fold (\<lambda>blob acc. if extension_supported (path blob)
                           then AList.update (path blob) (blob_stats analyze_source_code blob) acc
                           else acc) bs [])"

text \<open>
  \<open>commit.parents[0].diff(commit)\<close>: indexing an empty parent tuple raises \<open>IndexError\<close>;
  the diff itself is the provider's (\<open>git_diff\<close>).
\<close>

type_synonym differ = "Commit \<Rightarrow> Commit \<Rightarrow> Diff list"

definition parent_diff :: "differ \<Rightarrow> Commit \<Rightarrow> error + Diff list" where
  "parent_diff git_diff c =
     (case parents c of [] \<Rightarrow> Inl IndexError | commitA # _ \<Rightarrow> Inr (git_diff commitA c))"

definition all_blobs_modified_by_commit ::
  "(string \<Rightarrow> bool) \<Rightarrow> differ \<Rightarrow> Commit \<Rightarrow> error + (string \<times> Blob) list" where
  "all_blobs_modified_by_commit extension_supported git_diff c =
     (case parent_diff git_diff c of
        Inl e \<Rightarrow> Inl e
      | Inr diffs \<Rightarrow>
          Inr (fold (\<lambda>diff acc.
                 case b_blob diff of
                   None \<Rightarrow> acc
                 | Some b \<Rightarrow> if extension_supported (path b)
                              then AList.update (path b) b acc else acc) diffs []))"

definition startswith :: "string \<Rightarrow> string \<Rightarrow> bool" where
  "startswith s p \<longleftrightarrow> take (length p) s = p"

text \<open>
  \<open>tree_delta\<close>. \<open>blob_stats(diff.b_blob)\<close> on a missing blob raises \<open>AttributeError\<close>. The
  three tests on the change type are consecutive \<open>if\<close>s, as in the source. A commit object
  is never falsy, so the \<open>NULL_TREE\<close> branch of the source cannot be taken.
\<close>

definition tree_delta_set ::
  "parser \<Rightarrow> string \<Rightarrow> Blob option \<Rightarrow> (string \<times> BlobStats option) list
     \<Rightarrow> error + (string \<times> BlobStats option) list" where
  "tree_delta_set analyze_source_code p blob td =
     (case blob of
        None \<Rightarrow> Inl AttributeError
      | Some b \<Rightarrow> Inr (AList.update p (Some (blob_stats analyze_source_code b)) td))"

definition tree_delta_step ::
  "(string \<Rightarrow> bool) \<Rightarrow> parser \<Rightarrow> Diff \<Rightarrow> (string \<times> BlobStats option) list
     \<Rightarrow> error + (string \<times> BlobStats option) list" where
  "tree_delta_step extension_supported analyze_source_code diff td =
     (case (if change_type diff = ''A'' \<or> change_type diff = ''M''
            then (if extension_supported (b_path diff)
                  then tree_delta_set analyze_source_code (b_path diff) (b_blob diff) td
                  else Inr td)
            else Inr td) of
        Inl e \<Rightarrow> Inl e
      | Inr td1 \<Rightarrow>
          let td2 = (if change_type diff = ''D''
                     then (if extension_supported (a_path diff)
                           then AList.update (a_path diff) None td1 else td1)
                     else td1)
          in if startswith (change_type diff) ''R''
             then (let td3 = (if extension_supported (a_path diff)
                              then AList.update (a_path diff) None td2 else td2)
                   in if extension_supported (b_path diff)
                      then tree_delta_set analyze_source_code (b_path diff) (b_blob diff) td3
                      else Inr td3)
             else Inr td2)"

fun fold_err :: "('a \<Rightarrow> 's \<Rightarrow> error + 's) \<Rightarrow> 'a list \<Rightarrow> 's \<Rightarrow> error + 's" where
  "fold_err f [] s = Inr s"
| "fold_err f (x # xs) s = (case f x s of Inl e \<Rightarrow> Inl e | Inr s' \<Rightarrow> fold_err f xs s')"

definition tree_delta ::
  "(string \<Rightarrow> bool) \<Rightarrow> parser \<Rightarrow> differ \<Rightarrow> Commit
     \<Rightarrow> error + (string \<times> BlobStats option) list" where
  "tree_delta extension_supported analyze_source_code git_diff commitB =
     (case parent_diff git_diff commitB of
        Inl e \<Rightarrow> Inl e
      | Inr diffs \<Rightarrow>
          fold_err (tree_delta_step extension_supported analyze_source_code) diffs [])"

definition aggregate_delta_step ::
  "(string \<times> BlobStats) list \<Rightarrow> string \<times> BlobStats option \<Rightarrow> int \<times> int \<times> int
     \<Rightarrow> int \<times> int \<times> int" where
  "aggregate_delta_step previous_tree item acc =
     (case item of (p, blobstats) \<Rightarrow>
      case acc of (delta_loc, delta_cyclomatic_complexity, delta_functions) \<Rightarrow>
        let (l1, c1, f1) =
              (case map_of previous_tree p of
                 Some old \<Rightarrow> (delta_loc - bs_loc old,
                              delta_cyclomatic_complexity - bs_cyclomaticComplexity old,
                              delta_functions - bs_functions old)
               | None \<Rightarrow> (delta_loc, delta_cyclomatic_complexity, delta_functions))
        in (case blobstats of
              Some new \<Rightarrow> (l1 + bs_loc new, c1 + bs_cyclomaticComplexity new,
                           f1 + bs_functions new)
            | None \<Rightarrow> (l1, c1, f1)))"

definition aggregate_delta ::
  "(string \<times> BlobStats) list \<Rightarrow> (string \<times> BlobStats option) list \<Rightarrow> int \<times> int \<times> int" where
  "aggregate_delta previous_tree delta_tree =
     fold (aggregate_delta_step previous_tree) delta_tree (0, 0, 0)"

definition aggregate_stats_from_blobs :: "(string \<times> BlobStats) list \<Rightarrow> int \<times> int \<times> int" where
  "aggregate_stats_from_blobs blob_dict =
     fold (\<lambda>(blobname, blobstats) (total_loc, total_cyclomatic_complexity, total_functions).
             (total_loc + bs_loc blobstats,
              total_cyclomatic_complexity + bs_cyclomaticComplexity blobstats,
              total_functions + bs_functions blobstats)) blob_dict (0, 0, 0)"

definition apply_delta_to_tree ::
  "(string \<times> BlobStats) list \<Rightarrow> (string \<times> BlobStats option) list \<Rightarrow> (string \<times> BlobStats) list"
  where
  "apply_delta_to_tree previous_tree delta_tree =
     fold (\<lambda>(p, blobstats) t.
             case blobstats of
               None \<Rightarrow> AList.delete p t
             | Some new \<Rightarrow> AList.update p new t) delta_tree previous_tree"

definition calculate_function_complexities ::
  "parser \<Rightarrow> (string \<times> Blob) list \<Rightarrow> (string \<times> int) list" where
  "calculate_function_complexities analyze_source_code tr =
     fold (\<lambda>(p, blob) acc.
             fold (\<lambda>function acc'.
                     AList.update (p @ ''.'' @ name function) (cyclomatic_complexity function) acc')
                  (analyze_source_code (blob_name blob) (data_stream blob)) acc)
          tr []"

section \<open>levenshtein.py\<close>

text \<open>
  \<open>editdistance.eval\<close> is the library's Levenshtein distance: the least number of
  single-character insertions, deletions and substitutions.
\<close>

fun editdistance_eval :: "string \<Rightarrow> string \<Rightarrow> nat" where
  "editdistance_eval [] b = length b"
| "editdistance_eval (x # a) [] = Suc (length a)"
| "editdistance_eval (x # a) (y # b) =
     min (min (Suc (editdistance_eval a (y # b))) (Suc (editdistance_eval (x # a) b)))
         (editdistance_eval a b + (if x = y then 0 else 1))"

text \<open>\<open>str.split("\n")\<close>: the pieces between line feeds; the empty text has one empty piece.\<close>

fun split_lines :: "string \<Rightarrow> string list" where
  "split_lines [] = [[]]"
| "split_lines (ch # cs) =
     (if ch = CHR 0x0A then [] # split_lines cs
      else (case split_lines cs of
              [] \<Rightarrow> [[ch]]
            | l # ls \<Rightarrow> (ch # l) # ls))"

definition blob_size :: "Blob option \<Rightarrow> error + int" where
  "blob_size blob =
     (case blob of None \<Rightarrow> Inl AttributeError | Some b \<Rightarrow> Inr (int (length (data_stream b))))"

text \<open>
  The loop body of \<open>blob_delta\<close> over one line of the diff text; the state is
  \<open>(aggregatedDistance, contentA, contentB, previous_line_was_plus)\<close>.
\<close>

definition blob_delta_line ::
  "string \<Rightarrow> int \<times> string \<times> string \<times> bool \<Rightarrow> int \<times> string \<times> string \<times> bool" where
  "blob_delta_line line st =
     (case st of (aggregatedDistance, contentA, contentB, previous_line_was_plus) \<Rightarrow>
        if startswith line ''---'' \<or> startswith line ''+++'' then st
        else
          let contentA1 = (if startswith line ''-'' then contentA @ drop 1 line else contentA)
          in if startswith line ''+''
             then (aggregatedDistance, contentA1, contentB @ drop 1 line, True)
             else if previous_line_was_plus
             then (aggregatedDistance + int (editdistance_eval contentA1 contentB), [], [], False)
             else (aggregatedDistance, contentA1, contentB, previous_line_was_plus))"

definition blob_delta_lines :: "string list \<Rightarrow> int" where
  "blob_delta_lines ls =
     (case fold blob_delta_line ls (0, [], [], False) of
        (aggregatedDistance, contentA, contentB, _) \<Rightarrow>
          aggregatedDistance + int (editdistance_eval contentA contentB))"

text \<open>
  \<open>blob_delta\<close>: \<open>git_diff_output file_a file_b\<close> is the decoded output of
  \<open>git --no-pager diff file_a file_b\<close>.
\<close>

definition blob_delta :: "(string \<Rightarrow> string \<Rightarrow> string) \<Rightarrow> string \<Rightarrow> string \<Rightarrow> int" where
  "blob_delta git_diff_output file_a file_b =
     blob_delta_lines (split_lines (git_diff_output file_a file_b))"

definition commitDistance_step ::
  "(string \<Rightarrow> bool) \<Rightarrow> (string \<Rightarrow> string \<Rightarrow> string) \<Rightarrow> Commit \<Rightarrow> Commit \<Rightarrow> Diff \<Rightarrow> int
     \<Rightarrow> error + int" where
  "commitDistance_step extension_supported git_diff_output parent c diff aggregated_delta =
     (case (if change_type diff = ''A'' \<and> extension_supported (b_path diff)
            then (case blob_size (b_blob diff) of
                    Inl e \<Rightarrow> Inl e | Inr n \<Rightarrow> Inr (aggregated_delta + n))
            else Inr aggregated_delta) of
        Inl e \<Rightarrow> Inl e
      | Inr d1 \<Rightarrow>
          let d2 = (if (change_type diff = ''M'' \<or> startswith (change_type diff) ''R'')
                       \<and> extension_supported (b_path diff)
                    then d1 + blob_delta git_diff_output
                                (hexsha parent @ '':'' @ a_path diff)
                                (hexsha c @ '':'' @ b_path diff)
                    else d1)
          in if change_type diff = ''D'' \<and> extension_supported (a_path diff)
             then (case blob_size (a_blob diff) of Inl e \<Rightarrow> Inl e | Inr n \<Rightarrow> Inr (d2 + n))
             else Inr d2)"

definition commitDistance ::
  "(string \<Rightarrow> bool) \<Rightarrow> differ \<Rightarrow> (string \<Rightarrow> string \<Rightarrow> string) \<Rightarrow> Commit \<Rightarrow> error + int" where
  "commitDistance extension_supported git_diff git_diff_output c =
     (case parents c of
        [] \<Rightarrow> Inl IndexError
      | parent # _ \<Rightarrow>
          fold_err (commitDistance_step extension_supported git_diff_output parent c)
            (git_diff parent c) 0)"

section \<open>gitanalyses.py: edit distance, size and complexity, complex functions\<close>

definition analyzeLevenshteinDistance ::
  "(string \<Rightarrow> bool) \<Rightarrow> differ \<Rightarrow> (string \<Rightarrow> string \<Rightarrow> string) \<Rightarrow> store \<Rightarrow> nat list
     \<Rightarrow> error + store" where
  "analyzeLevenshteinDistance extension_supported git_diff git_diff_output heap data =
     fold_err (\<lambda>c h.
        if previous (h ! c) = None then Inr h
        else (case commitDistance extension_supported git_diff git_diff_output (commit (h ! c)) of
                Inl e \<Rightarrow> Inl e
              | Inr d \<Rightarrow> Inr (h[c := (h ! c)\<lparr>levenshteinDistance := Some d\<rparr>])))
       data heap"

text \<open>
  \<open>analyzeSizeAndComplexity\<close>. \<open>previous_commit\<close> is a reference: first to a fresh record
  for the parent of \<open>data[0]\<close> (allocated at the end of the store), then to the record
  processed last. Adding to an unset field raises \<open>TypeError\<close>. The loop state is
  \<open>(heap, previous_commit, previous_tree)\<close>.
\<close>

definition analyzeSizeAndComplexity_step ::
  "(string \<Rightarrow> bool) \<Rightarrow> parser \<Rightarrow> differ \<Rightarrow> nat
     \<Rightarrow> store \<times> nat \<times> (string \<times> BlobStats) list
     \<Rightarrow> error + store \<times> nat \<times> (string \<times> BlobStats) list" where
  "analyzeSizeAndComplexity_step extension_supported analyze_source_code git_diff c st =
     (case st of (heap, previous_commit, previous_tree) \<Rightarrow>
      case tree_delta extension_supported analyze_source_code git_diff (commit (heap ! c)) of
        Inl e \<Rightarrow> Inl e
      | Inr td \<Rightarrow>
         (case aggregate_delta previous_tree td of
            (delta_loc, delta_cyclomatic_complexity, delta_functions) \<Rightarrow>
         (case loc (heap ! previous_commit) of
            None \<Rightarrow> Inl TypeError
          | Some pl \<Rightarrow>
         let heap1 = heap[c := (heap ! c)\<lparr>loc := Some (pl + delta_loc),
                                          deltaLoc := Some delta_loc\<rparr>]
         in (case cyclomaticComplexity (heap1 ! previous_commit) of
            None \<Rightarrow> Inl TypeError
          | Some pc \<Rightarrow>
         let heap2 = heap1[c := (heap1 ! c)
                       \<lparr>cyclomaticComplexity := Some (pc + delta_cyclomatic_complexity),
                        deltaCyclomaticComplexity := Some delta_cyclomatic_complexity\<rparr>]
         in (case functionsCount (heap2 ! previous_commit) of
            None \<Rightarrow> Inl TypeError
          | Some pf \<Rightarrow>
         let heap3 = heap2[c := (heap2 ! c)\<lparr>functionsCount := Some (pf + delta_functions),
                                            deltaFunctions := Some delta_functions\<rparr>]
         in Inr (heap3, c, apply_delta_to_tree previous_tree td))))))"

definition analyzeSizeAndComplexity ::
  "(string \<Rightarrow> bool) \<Rightarrow> parser \<Rightarrow> differ \<Rightarrow> store \<Rightarrow> nat list \<Rightarrow> error + store" where
  "analyzeSizeAndComplexity extension_supported analyze_source_code git_diff heap data =
     (case data of
        [] \<Rightarrow> Inr heap
      | c0 # _ \<Rightarrow>
         (case parents (commit (heap ! c0)) of
            [] \<Rightarrow> Inl IndexError
          | parent # _ \<Rightarrow>
              let previous_commit = length heap;
                  previous_tree = analyze_tree extension_supported analyze_source_code (tree parent);
                  (l, cc, f) = aggregate_stats_from_blobs previous_tree;
                  heap0 = heap @ [(new_AnnotatedCommit parent)
                            \<lparr>loc := Some l, cyclomaticComplexity := Some cc,
                             functionsCount := Some f\<rparr>]
              in (case fold_err (analyzeSizeAndComplexity_step extension_supported
                                   analyze_source_code git_diff)
                         data (heap0, previous_commit, previous_tree) of
                    Inl e \<Rightarrow> Inl e
                  | Inr (heap', _, _) \<Rightarrow> Inr heap')))"

text \<open>
  \<open>update_complex_function_contribution_of_commit\<close>, on the record of the commit. The test
  \<open>if commit.decreaseOfComplexityInComplexFunctions:\<close> is false for \<open>None\<close> and for \<open>0\<close>.
\<close>

definition accumulate :: "int option \<Rightarrow> int \<Rightarrow> int option" where
  "accumulate field amount =
     (case field of
        None \<Rightarrow> Some amount
      | Some v \<Rightarrow> if v \<noteq> 0 then Some (v + amount) else Some amount)"

definition update_complex_function_contribution_of_commit ::
  "(string \<times> int) list \<Rightarrow> string \<Rightarrow> int \<Rightarrow> AnnotatedCommit \<Rightarrow> AnnotatedCommit" where
  "update_complex_function_contribution_of_commit previous_function_complexities function
     complexity ac =
     (let previous_complexity =
            (case map_of previous_function_complexities function of
               Some v \<Rightarrow> v | None \<Rightarrow> 0);
          ac1 = (if previous_complexity > 11 \<and> previous_complexity > complexity
                 then ac\<lparr>decreaseOfComplexityInComplexFunctions :=
                           accumulate (decreaseOfComplexityInComplexFunctions ac)
                             (previous_complexity - complexity)\<rparr>
                 else ac)
      in if complexity > 11 \<and> complexity > previous_complexity
         then ac1\<lparr>increaseOfComplexityInComplexFunctions :=
                    accumulate (increaseOfComplexityInComplexFunctions ac1)
                      (complexity - previous_complexity)\<rparr>
         else ac1)"

text \<open>
  The body of the inner loop of \<open>analyzeComplexFunctionsContributions\<close> for one re-measured
  function of commit \<open>c\<close>; the state is \<open>(heap, previous_function_complexities)\<close>.
\<close>

definition contribution_item ::
  "string list \<Rightarrow> nat \<Rightarrow> string \<times> int \<Rightarrow> store \<times> (string \<times> int) list
     \<Rightarrow> store \<times> (string \<times> int) list" where
  "contribution_item complex_functions c item st =
     (case item of (function, complexity) \<Rightarrow>
      case st of (heap, previous_function_complexities) \<Rightarrow>
        ((if function \<in> set complex_functions
          then heap[c := update_complex_function_contribution_of_commit
                           previous_function_complexities function complexity (heap ! c)]
          else heap),
         AList.update function complexity previous_function_complexities))"

definition analyzeComplexFunctionsContributions ::
  "(string \<Rightarrow> bool) \<Rightarrow> parser \<Rightarrow> differ \<Rightarrow> store \<Rightarrow> nat list \<Rightarrow> string list
     \<Rightarrow> error + store" where
  "analyzeComplexFunctionsContributions extension_supported analyze_source_code git_diff
     heap data complex_functions =
     (case data of
        [] \<Rightarrow> Inr heap
      | c0 # _ \<Rightarrow>
         (case parents (commit (heap ! c0)) of
            [] \<Rightarrow> Inl IndexError
          | parent # _ \<Rightarrow>
              let previous_tree = all_blobs_in_tree extension_supported (tree parent);
                  previous_function_complexities =
                    calculate_function_complexities analyze_source_code previous_tree
              in (case fold_err (\<lambda>c st.
                          case all_blobs_modified_by_commit extension_supported git_diff
                                 (commit (fst st ! c)) of
                            Inl e \<Rightarrow> Inl e
                          | Inr modified_blobs \<Rightarrow>
                              Inr (fold (contribution_item complex_functions c)
                                     (calculate_function_complexities analyze_source_code
                                        modified_blobs) st))
                         data (heap, previous_function_complexities) of
                    Inl e \<Rightarrow> Inl e
                  | Inr (heap', _) \<Rightarrow> Inr heap')))"

section \<open>gitlyze.py: tabulation and the pipeline\<close>

text \<open>
  A table cell is a string, a number or \<open>None\<close> (which the report writes as an empty
  field). \<open>secondsToIso\<close>, \<open>str.lower\<close> and \<open>str.isalnum\<close> belong to the Python library
  and are parameters.
\<close>

datatype cell = CStr string | CInt int | CNone

definition cell_of :: "int option \<Rightarrow> cell" where
  "cell_of v = (case v of None \<Rightarrow> CNone | Some i \<Rightarrow> CInt i)"

fun digits :: "nat \<Rightarrow> string" where
  "digits n = (if n < 10 then [char_of (48 + n)]
               else digits (n div 10) @ [char_of (48 + n mod 10)])"

definition str :: "int \<Rightarrow> string" where
  "str i = (if i < 0 then ''-'' @ digits (nat (- i)) else digits (nat i))"

definition table_header :: "int \<Rightarrow> cell list" where
  "table_header activeCommitterInterval =
     (let activeCommitterIntervalDays =
            str (int_trunc_div activeCommitterInterval (24 * 60 * 60))
      in [CStr ''Commit'', CStr ''Author name'', CStr ''Commit timestamp'',
          CStr ''Committed date'',
          CStr (''Number of active developers ('' @ activeCommitterIntervalDays @ '' days)''),
          CStr (''Days since previous commit by developer (up to ''
                  @ activeCommitterIntervalDays @ '' days)''),
          CStr ''Number of commits in last 24h'', CStr ''Levenshtein distance'',
          CStr ''Lines of code'', CStr ''Cyclomatic complexity'', CStr ''Number of functions'',
          CStr ''Delta lines of code'', CStr ''Delta cyclomatic complexity'',
          CStr ''Delta number of functions'', CStr ''Increase in complex functions'',
          CStr ''Decrease in complex functions''])"

definition table_row ::
  "(int \<Rightarrow> string) \<Rightarrow> (string \<Rightarrow> string) \<Rightarrow> (char \<Rightarrow> bool) \<Rightarrow> AnnotatedCommit \<Rightarrow> cell list"
  where
  "table_row secondsToIso lower isalnum c =
     [CStr (hexsha (commit c)),
      CStr (filter isalnum (lower (author_name (commit c)))),
      CInt (committed_date (commit c)),
      CStr (secondsToIso (committed_date (commit c))),
      cell_of (numberOfActiveDevelopers c),
      cell_of (daysSincePreviousCommitByDeveloper c),
      cell_of (numberOfCommitsInLast24h c),
      cell_of (levenshteinDistance c),
      cell_of (loc c), cell_of (cyclomaticComplexity c), cell_of (functionsCount c),
      cell_of (deltaLoc c), cell_of (deltaCyclomaticComplexity c), cell_of (deltaFunctions c),
      cell_of (increaseOfComplexityInComplexFunctions c),
      cell_of (decreaseOfComplexityInComplexFunctions c)]"

definition tabulate ::
  "(int \<Rightarrow> string) \<Rightarrow> (string \<Rightarrow> string) \<Rightarrow> (char \<Rightarrow> bool) \<Rightarrow> store \<Rightarrow> nat list \<Rightarrow> int
     \<Rightarrow> cell list list" where
  "tabulate secondsToIso lower isalnum heap data activeCommitterInterval =
     fold (\<lambda>c table.
             if levenshteinDistance (heap ! c) = Some 0 then table
             else table @ [table_row secondsToIso lower isalnum (heap ! c)])
          data [table_header activeCommitterInterval]"

section \<open>find-complex-functions.py\<close>

fun append_blobs :: "(string \<Rightarrow> bool) \<Rightarrow> Blob list \<Rightarrow> Tree \<Rightarrow> Blob list" where
  "append_blobs extension_supported acc (Tree bs ts) =
     fold (\<lambda>subtree acc'. append_blobs extension_supported acc' subtree) ts
       (fold (\<lambda>blob acc'. if extension_supported (path blob) then acc' @ [blob] else acc') bs acc)"

text \<open>The blobs one commit contributes: the whole tree for the first, the changed files after.\<close>

definition blobs_to_scan ::
  "(string \<Rightarrow> bool) \<Rightarrow> differ \<Rightarrow> nat \<Rightarrow> Commit \<Rightarrow> error + Blob list" where
  "blobs_to_scan extension_supported git_diff i c =
     (if i = 1 then Inr (append_blobs extension_supported [] (tree c))
      else (case parent_diff git_diff c of
              Inl e \<Rightarrow> Inl e
            | Inr diffs \<Rightarrow>
                Inr (fold (\<lambda>diff acc.
                       case b_blob diff of
                         None \<Rightarrow> acc
                       | Some b \<Rightarrow> if extension_supported (path b) then acc @ [b] else acc)
                     diffs [])))"

definition record_function :: "Blob \<Rightarrow> FunctionInfo \<Rightarrow> (string \<times> int) list \<Rightarrow> (string \<times> int) list"
  where
  "record_function blob function complex_functions =
     (if cyclomatic_complexity function > 15
      then (let distinguished_function_name = path blob @ ''.'' @ name function
            in case map_of complex_functions distinguished_function_name of
                 Some known \<Rightarrow>
                   AList.update distinguished_function_name
                     (max (cyclomatic_complexity function) known) complex_functions
               | None \<Rightarrow>
                   AList.update distinguished_function_name (cyclomatic_complexity function)
                     complex_functions)
      else complex_functions)"

definition scan_blob ::
  "parser \<Rightarrow> string list \<Rightarrow> Blob \<Rightarrow> (string \<times> int) list \<Rightarrow> (string \<times> int) list" where
  "scan_blob analyze_source_code filtered_files blob complex_functions =
     (if path blob \<in> set filtered_files then complex_functions
      else fold (record_function blob)
             (analyze_source_code (blob_name blob) (data_stream blob)) complex_functions)"

text \<open>The loop over \<open>data\<close>; the state is \<open>(i, complex_functions)\<close>.\<close>

definition find_complex_functions ::
  "(string \<Rightarrow> bool) \<Rightarrow> parser \<Rightarrow> differ \<Rightarrow> store \<Rightarrow> nat list \<Rightarrow> string list
     \<Rightarrow> error + (string \<times> int) list" where
  "find_complex_functions extension_supported analyze_source_code git_diff heap data
     filtered_files =
     (case fold_err (\<lambda>c (i, complex_functions).
               case blobs_to_scan extension_supported git_diff (i + 1) (commit (heap ! c)) of
                 Inl e \<Rightarrow> Inl e
               | Inr scan \<Rightarrow>
                   Inr (i + 1, fold (scan_blob analyze_source_code filtered_files) scan
                                 complex_functions))
             data (0, []) of
        Inl e \<Rightarrow> Inl e
      | Inr (_, complex_functions) \<Rightarrow> Inr complex_functions)"

section \<open>Example history\<close>

text \<open>
  A small linear history used to instantiate the theorems below: a root commit, a commit
  that adds \<open>a.c\<close> with one function of complexity 3, and a commit that raises that
  function's complexity to 20. The stand-in parser knows these two texts; only \<open>.c\<close> files
  are supported.
\<close>

definition ex_supported :: "string \<Rightarrow> bool" where
  "ex_supported p \<longleftrightarrow> drop (length p - 2) p = ''.c''"

definition ex_parser :: parser where
  "ex_parser file_name content =
     (if content = ''v1'' then [\<lparr>name = ''f'', nloc = 10, cyclomatic_complexity = 3\<rparr>]
      else if content = ''v2'' then [\<lparr>name = ''f'', nloc = 12, cyclomatic_complexity = 20\<rparr>]
      else [])"

definition ex_blob1 :: Blob where
  "ex_blob1 = \<lparr>path = ''a.c'', blob_name = ''a.c'', data_stream = ''v1''\<rparr>"

definition ex_blob2 :: Blob where
  "ex_blob2 = \<lparr>path = ''a.c'', blob_name = ''a.c'', data_stream = ''v2''\<rparr>"

definition ex_blob3 :: Blob where
  "ex_blob3 = \<lparr>path = ''b.c'', blob_name = ''b.c'', data_stream = ''v2''\<rparr>"

definition ex_commit0 :: Commit where
  "ex_commit0 = Commit ''c0'' ''ann'' 1000 [] (Tree [] [])"

definition ex_commit1 :: Commit where
  "ex_commit1 = Commit ''c1'' ''bob'' 2000 [ex_commit0] (Tree [ex_blob1] [])"

definition ex_commit2 :: Commit where
  "ex_commit2 = Commit ''c2'' ''ann'' 3000 [ex_commit1] (Tree [ex_blob2] [])"


definition ex_git_diff :: differ where
  "ex_git_diff a b =
     (if hexsha b = ''c1''
      then [\<lparr>change_type = ''A'', a_path = ''a.c'', b_path = ''a.c'',
             a_blob = None, b_blob = Some ex_blob1\<rparr>]
      else if hexsha b = ''c2''
      then [\<lparr>change_type = ''M'', a_path = ''a.c'', b_path = ''a.c'',
             a_blob = Some ex_blob1, b_blob = Some ex_blob2\<rparr>]
      else if hexsha b = ''c3''
      then [\<lparr>change_type = ''M'', a_path = ''README'', b_path = ''README'',
             a_blob = None, b_blob = None\<rparr>,
            \<lparr>change_type = ''R100'', a_path = ''a.c'', b_path = ''b.c'',
             a_blob = Some ex_blob2, b_blob = Some ex_blob3\<rparr>]
      else [])"

definition ex_filter_match :: "Commit \<Rightarrow> string list \<Rightarrow> string list \<Rightarrow> bool" where
  "ex_filter_match c filtered_authors filtered_commits \<longleftrightarrow>
     author_name c \<in> set filtered_authors \<or> hexsha c \<in> set filtered_commits"

definition ex_log :: "Commit list" where
  "ex_log = [ex_commit2, ex_commit1, ex_commit0]"

definition ex_record :: "Commit \<Rightarrow> nat option \<Rightarrow> nat option \<Rightarrow> AnnotatedCommit" where
  "ex_record c p n = (new_AnnotatedCommit c)\<lparr>previous := p, next_commit := n\<rparr>"

definition ex_heap :: store where
  "ex_heap = [ex_record ex_commit0 None (Some 1), ex_record ex_commit1 (Some 0) (Some 2),
              ex_record ex_commit2 (Some 1) None]"

definition ex_baseline :: AnnotatedCommit where
  "ex_baseline = (new_AnnotatedCommit ex_commit0)
     \<lparr>loc := Some 0, cyclomaticComplexity := Some 0, functionsCount := Some 0\<rparr>"

definition ex_stats1 :: BlobStats where
  "ex_stats1 = \<lparr>bs_loc = 10, bs_cyclomaticComplexity = 3, bs_functions = 1\<rparr>"

definition ex_stats2 :: BlobStats where
  "ex_stats2 = \<lparr>bs_loc = 12, bs_cyclomaticComplexity = 20, bs_functions = 1\<rparr>"

definition ex_heap_sized :: store where
  "ex_heap_sized =
     [ex_record ex_commit0 None (Some 1),
      (ex_record ex_commit1 (Some 0) (Some 2))
        \<lparr>loc := Some 10, deltaLoc := Some 10, cyclomaticComplexity := Some 3,
         deltaCyclomaticComplexity := Some 3, functionsCount := Some 1,
         deltaFunctions := Some 1\<rparr>,
      (ex_record ex_commit2 (Some 1) None)
        \<lparr>loc := Some 12, deltaLoc := Some 2, cyclomaticComplexity := Some 20,
         deltaCyclomaticComplexity := Some 17, functionsCount := Some 1,
         deltaFunctions := Some 0\<rparr>,
      ex_baseline]"

definition ex_baseline1 :: AnnotatedCommit where
  "ex_baseline1 = (new_AnnotatedCommit ex_commit1)
     \<lparr>loc := Some 10, cyclomaticComplexity := Some 3, functionsCount := Some 1\<rparr>"

definition ex_heap_sized_filtered :: store where
  "ex_heap_sized_filtered =
     [ex_record ex_commit0 None (Some 1),
      ex_record ex_commit1 (Some 0) (Some 2),
      (ex_record ex_commit2 (Some 1) None)
        \<lparr>loc := Some 12, deltaLoc := Some 2, cyclomaticComplexity := Some 20,
         deltaCyclomaticComplexity := Some 17, functionsCount := Some 1,
         deltaFunctions := Some 0\<rparr>,
      ex_baseline1]"

text \<open>
  The same history cut off below the second commit (a log that starts at a commit with a
  parent), and the textual diff of \<open>a.c\<close> between the two remaining commits.
\<close>

definition ex_git_diff_output :: "string \<Rightarrow> string \<Rightarrow> string" where
  "ex_git_diff_output file_a file_b =
     ''--- a/a.c'' @ [CHR 0x0A] @ ''+++ b/a.c'' @ [CHR 0x0A] @ ''@@ -1 +1 @@'' @ [CHR 0x0A]
       @ ''-v1'' @ [CHR 0x0A] @ ''+v2'' @ [CHR 0x0A]"

definition ex_log_short :: "Commit list" where
  "ex_log_short = [ex_commit2, ex_commit1]"

definition ex_heap_short :: store where
  "ex_heap_short = [ex_record ex_commit1 None (Some 1), ex_record ex_commit2 (Some 0) None]"

definition ex_heap_short_distance :: store where
  "ex_heap_short_distance =
     [ex_record ex_commit1 None (Some 1),
      (ex_record ex_commit2 (Some 0) None)\<lparr>levenshteinDistance := Some 1\<rparr>]"








section \<open>Auxiliary notions for the statements\<close>

text \<open>
  The first three calls of \<open>gitlyze\<close>: the windowed activity analyzers, one after the other
  on the same data set.
\<close>

definition activity_analyses :: "store \<Rightarrow> nat list \<Rightarrow> int \<Rightarrow> store option" where
  "activity_analyses heap data activeCommitterInterval =
     (case analyzeNumberOfActiveDevelopers heap data activeCommitterInterval of
        None \<Rightarrow> None
      | Some heap1 \<Rightarrow>
         (case analyzeDaysSincePreviousCommit heap1 data activeCommitterInterval of
            None \<Rightarrow> None
          | Some heap2 \<Rightarrow> analyzeNumberOfCommitsInSameDay heap2 data))"

text \<open>
  The record that \<open>createDataSet\<close> builds for position \<open>i\<close> of the oldest-first raw log, and
  the property of a store that the links follow the raw log position by position.
\<close>

definition linked :: "Commit list \<Rightarrow> nat \<Rightarrow> AnnotatedCommit" where
  "linked raw i =
     (new_AnnotatedCommit (raw ! i))
       \<lparr>previous := (if i = 0 then None else Some (i - 1)),
        next_commit := (if Suc i < length raw then Some (Suc i) else None)\<rparr>"

definition chain_of :: "Commit list \<Rightarrow> store \<Rightarrow> bool" where
  "chain_of raw heap \<longleftrightarrow>
     length heap = length raw \<and>
     (\<forall>i<length raw. commit (heap ! i) = raw ! i \<and>
                      previous (heap ! i) = (if i = 0 then None else Some (i - 1)))"

text \<open>
  The windowed metrics stated on the raw log itself, oldest first and unfiltered: the
  commits before position \<open>c\<close>, newest first, for as long as their committed date stays above
  the cut-off; the distinct authors among them; the first of them by the author of \<open>c\<close>;
  their number for the one-day cut-off.
\<close>

definition history_window :: "Commit list \<Rightarrow> nat \<Rightarrow> int \<Rightarrow> Commit list" where
  "history_window raw c cutOff =
     takeWhile (\<lambda>r. committed_date r > cutOff) (rev (take c raw))"

definition active_developers :: "Commit list \<Rightarrow> nat \<Rightarrow> int \<Rightarrow> int" where
  "active_developers raw c window =
     int (card (author_name ` set (history_window raw c (committed_date (raw ! c) - window))))"

definition days_since_previous :: "Commit list \<Rightarrow> nat \<Rightarrow> int \<Rightarrow> int option" where
  "days_since_previous raw c window =
     (case find (\<lambda>r. author_name r = author_name (raw ! c))
             (history_window raw c (committed_date (raw ! c) - window)) of
        None \<Rightarrow> None
      | Some r \<Rightarrow> Some (int_trunc_div (committed_date (raw ! c) - committed_date r) 86400))"

definition commits_in_last_24h :: "Commit list \<Rightarrow> nat \<Rightarrow> int" where
  "commits_in_last_24h raw c =
     int (length (history_window raw c (committed_date (raw ! c) - 86400)))"

text \<open>A loop over \<open>data\<close> that rewrites the record of each element in place.\<close>

definition update_each ::
  "(nat \<Rightarrow> AnnotatedCommit \<Rightarrow> AnnotatedCommit) \<Rightarrow> nat list \<Rightarrow> store \<Rightarrow> store" where
  "update_each f data heap = fold (\<lambda>c h. h[c := f c (h ! c)]) data heap"

text \<open>
  The relation between deltas and absolute values taken against the chain predecessor
  \<open>C.previous\<close>: the predecessor exists, all fields involved are set, and each delta is the
  absolute value of \<open>C\<close> minus that of \<open>C.previous\<close>.
\<close>

definition field_difference :: "int option \<Rightarrow> int option \<Rightarrow> int option \<Rightarrow> bool" where
  "field_difference delta absolute previous_absolute \<longleftrightarrow>
     (case (delta, absolute, previous_absolute) of
        (Some d, Some a, Some pa) \<Rightarrow> d = a - pa
      | _ \<Rightarrow> False)"

definition delta_against_chain_predecessor :: "store \<Rightarrow> nat \<Rightarrow> bool" where
  "delta_against_chain_predecessor heap c \<longleftrightarrow>
     (case previous (heap ! c) of
        None \<Rightarrow> False
      | Some p \<Rightarrow>
          field_difference (deltaLoc (heap ! c)) (loc (heap ! c)) (loc (heap ! p)) \<and>
          field_difference (deltaCyclomaticComplexity (heap ! c))
            (cyclomaticComplexity (heap ! c)) (cyclomaticComplexity (heap ! p)) \<and>
          field_difference (deltaFunctions (heap ! c)) (functionsCount (heap ! c))
            (functionsCount (heap ! p)))"

text \<open>
  What the complex-function finder measures, stated on the history: all blobs of a tree, the
  blobs a diff list leaves behind (added, modified or renamed files, with their new
  content), the blobs measured over a walk (the supported blobs of the whole tree of the
  first commit, then the supported changed blobs of each later commit), and the
  observations made on them: one pair of fully-qualified name and complexity for every
  function of every measured blob whose path is not among the filtered files.
\<close>

fun tree_blobs :: "Tree \<Rightarrow> Blob list" where
  "tree_blobs (Tree bs ts) = bs @ concat (map tree_blobs ts)"

definition changed_blobs :: "(string \<Rightarrow> bool) \<Rightarrow> Diff list \<Rightarrow> Blob list" where
  "changed_blobs extension_supported diffs =
     filter (\<lambda>b. extension_supported (path b)) (List.map_filter b_blob diffs)"

definition measured_blobs :: "(string \<Rightarrow> bool) \<Rightarrow> differ \<Rightarrow> Commit list \<Rightarrow> Blob list" where
  "measured_blobs extension_supported git_diff commits =
     (case commits of
        [] \<Rightarrow> []
      | first # later \<Rightarrow>
          filter (\<lambda>b. extension_supported (path b)) (tree_blobs (tree first)) @
          concat (map (\<lambda>c. case parents c of
                               [] \<Rightarrow> []
                             | parent # _ \<Rightarrow> changed_blobs extension_supported (git_diff parent c))
                      later))"

definition observations :: "parser \<Rightarrow> string list \<Rightarrow> Blob list \<Rightarrow> (string \<times> int) list" where
  "observations analyze_source_code filtered_files bs =
     concat (map (\<lambda>b. if path b \<in> set filtered_files then []
                       else map (\<lambda>f. (path b @ ''.'' @ name f, cyclomatic_complexity f))
                              (analyze_source_code (blob_name b) (data_stream b))) bs)"

text \<open>The update of the finder's map for one observation, and the complexities above 15
  observed for one name.\<close>

definition record_observation :: "string \<times> int \<Rightarrow> (string \<times> int) list \<Rightarrow> (string \<times> int) list" where
  "record_observation ob complex_functions =
     (case ob of (n, v) \<Rightarrow>
        if v > 15
        then AList.update n (case map_of complex_functions n of Some known \<Rightarrow> max v known
                                                              | None \<Rightarrow> v) complex_functions
        else complex_functions)"

definition hits :: "string \<Rightarrow> (string \<times> int) list \<Rightarrow> int list" where
  "hits n obs = map snd (filter (\<lambda>ob. fst ob = n \<and> 15 < snd ob) obs)"

section \<open>The commit chain\<close>

lemma createDataSet_fold:
  "fold (createDataSet_step fm st et fa fc) raw ([], [], None) =
     (map (linked raw) [0..<length raw],
      filter (\<lambda>i. analyzable fm st et fa fc (raw ! i)) [0..<length raw],
      if raw = [] then None else Some (length raw - 1))"
proof (induction raw rule: rev_induct)
  case Nil
  show ?case by simp
next
  case (snoc x xs)
  have heap_eq: "map (linked (xs @ [x])) [0..<length (xs @ [x])] =
    (case (if xs = [] then None else Some (length xs - 1)) of
       None \<Rightarrow> map (linked xs) [0..<length xs] @ [(new_AnnotatedCommit x)\<lparr>previous := (if xs = [] then None else Some (length xs - 1))\<rparr>]
     | Some p \<Rightarrow> (map (linked xs) [0..<length xs] @ [(new_AnnotatedCommit x)\<lparr>previous := (if xs = [] then None else Some (length xs - 1))\<rparr>])
          [p := ((map (linked xs) [0..<length xs] @ [(new_AnnotatedCommit x)\<lparr>previous := (if xs = [] then None else Some (length xs - 1))\<rparr>]) ! p)\<lparr>next_commit := Some (length xs)\<rparr>])"
  proof (cases "xs = []")
    case True
    then show ?thesis by (simp add: linked_def new_AnnotatedCommit_def)
  next
    case False
    then have pos: "0 < length xs" by simp
    then have pos': "length xs - Suc 0 \<noteq> length xs" by arith
    have len: "length (map (linked (xs @ [x])) [0..<length (xs @ [x])]) = Suc (length xs)"
      by simp
    show ?thesis
    proof (rule nth_equalityI)
      show "length (map (linked (xs @ [x])) [0..<length (xs @ [x])]) =
        length (case (if xs = [] then None else Some (length xs - 1)) of
       None \<Rightarrow> map (linked xs) [0..<length xs] @ [(new_AnnotatedCommit x)\<lparr>previous := (if xs = [] then None else Some (length xs - 1))\<rparr>]
     | Some p \<Rightarrow> (map (linked xs) [0..<length xs] @ [(new_AnnotatedCommit x)\<lparr>previous := (if xs = [] then None else Some (length xs - 1))\<rparr>])
          [p := ((map (linked xs) [0..<length xs] @ [(new_AnnotatedCommit x)\<lparr>previous := (if xs = [] then None else Some (length xs - 1))\<rparr>]) ! p)\<lparr>next_commit := Some (length xs)\<rparr>])"
        using False by simp
    next
      fix i assume "i < length (map (linked (xs @ [x])) [0..<length (xs @ [x])])"
      then have i: "i < Suc (length xs)" by simp
      consider "i = length xs" | "Suc i = length xs" | "Suc i < length xs" using i by linarith
      then show "map (linked (xs @ [x])) [0..<length (xs @ [x])] ! i =
        (case (if xs = [] then None else Some (length xs - 1)) of
       None \<Rightarrow> map (linked xs) [0..<length xs] @ [(new_AnnotatedCommit x)\<lparr>previous := (if xs = [] then None else Some (length xs - 1))\<rparr>]
     | Some p \<Rightarrow> (map (linked xs) [0..<length xs] @ [(new_AnnotatedCommit x)\<lparr>previous := (if xs = [] then None else Some (length xs - 1))\<rparr>])
          [p := ((map (linked xs) [0..<length xs] @ [(new_AnnotatedCommit x)\<lparr>previous := (if xs = [] then None else Some (length xs - 1))\<rparr>]) ! p)\<lparr>next_commit := Some (length xs)\<rparr>]) ! i"
      proof cases
        case 1
        then show ?thesis using False pos pos'
          by (simp add: nth_append linked_def nth_list_update new_AnnotatedCommit_def del: upt_Suc)
      next
        case 2
        then show ?thesis using False pos
          by (auto simp add: nth_append linked_def nth_list_update simp del: upt_Suc)
      next
        case 3
        then show ?thesis using False pos
          by (auto simp add: nth_append linked_def nth_list_update simp del: upt_Suc)
      qed
    qed
  qed
  have data_eq: "filter (\<lambda>i. analyzable fm st et fa fc ((xs @ [x]) ! i)) [0..<length (xs @ [x])]
      = (if analyzable fm st et fa fc x
         then filter (\<lambda>i. analyzable fm st et fa fc (xs ! i)) [0..<length xs] @ [length xs]
         else filter (\<lambda>i. analyzable fm st et fa fc (xs ! i)) [0..<length xs])"
    by (auto simp: nth_append intro!: filter_cong)
  show ?case
    unfolding fold_append comp_def fold_simps snoc.IH
    apply (simp only: createDataSet_step_def split_conv Let_def length_map length_upt minus_nat.diff_0 heap_eq data_eq)
    apply simp
    done
qed

lemma history_window_0: "history_window raw 0 cutOff = []"
  by (simp add: history_window_def)

lemma history_window_Suc:
  "i < length raw \<Longrightarrow> history_window raw (Suc i) cutOff =
     (if committed_date (raw ! i) > cutOff then raw ! i # history_window raw i cutOff else [])"
  by (simp add: history_window_def take_Suc_conv_app_nth)

lemma activeDevelopers_walk_chain:
  assumes "chain_of raw heap"
  shows "i \<le> length raw \<Longrightarrow>
     activeDevelopers_walk heap cutOff (if i = 0 then None else Some (i - 1)) committers =
       Some (fold List.insert (map author_name (history_window raw i cutOff)) committers)"
proof (induction i arbitrary: committers)
  case 0
  show ?case by (subst activeDevelopers_walk.simps) (simp add: history_window_0)
next
  case (Suc i)
  then have i: "i < length raw" by simp
  from assms i have c: "commit (heap ! i) = raw ! i"
    and p: "previous (heap ! i) = (if i = 0 then None else Some (i - 1))"
    by (simp_all add: chain_of_def)
  show ?case
    apply (subst activeDevelopers_walk.simps)
    using Suc.IH i by (simp add: c p history_window_Suc)
qed

lemma daysSincePreviousCommit_walk_chain:
  assumes "chain_of raw heap"
  shows "i \<le> length raw \<Longrightarrow>
     daysSincePreviousCommit_walk heap cutOff (if i = 0 then None else Some (i - 1)) c =
       Some (case find (\<lambda>r. author_name r = author_name c) (history_window raw i cutOff) of
               None \<Rightarrow> NoAssignment
             | Some r \<Rightarrow> Assign (int_trunc_div (committed_date c - committed_date r) 86400))"
proof (induction i)
  case 0
  show ?case by (subst daysSincePreviousCommit_walk.simps) (simp add: history_window_0)
next
  case (Suc i)
  then have i: "i < length raw" by simp
  from assms i have c: "commit (heap ! i) = raw ! i"
    and p: "previous (heap ! i) = (if i = 0 then None else Some (i - 1))"
    by (simp_all add: chain_of_def)
  show ?case
    apply (subst daysSincePreviousCommit_walk.simps)
    using Suc.IH i by (simp add: c p history_window_Suc)
qed

lemma commitsInSameDay_walk_chain:
  assumes "chain_of raw heap"
  shows "i \<le> length raw \<Longrightarrow>
     commitsInSameDay_walk heap cutOff (if i = 0 then None else Some (i - 1)) n =
       Some (n + int (length (history_window raw i cutOff)))"
proof (induction i arbitrary: n)
  case 0
  show ?case by (subst commitsInSameDay_walk.simps) (simp add: history_window_0)
next
  case (Suc i)
  then have i: "i < length raw" by simp
  from assms i have c: "commit (heap ! i) = raw ! i"
    and p: "previous (heap ! i) = (if i = 0 then None else Some (i - 1))"
    by (simp_all add: chain_of_def)
  show ?case
    apply (subst commitsInSameDay_walk.simps)
    using Suc.IH i by (simp add: c p history_window_Suc)
qed

lemma set_fold_insert: "set (fold List.insert xs acc) = set xs \<union> set acc"
  by (induction xs arbitrary: acc) auto

lemma distinct_fold_insert: "distinct acc \<Longrightarrow> distinct (fold List.insert xs acc)"
  by (induction xs arbitrary: acc) auto

lemma length_fold_insert: "length (fold List.insert xs []) = card (set xs)"
proof -
  have "distinct (fold List.insert xs [])" by (rule distinct_fold_insert) simp
  then have "length (fold List.insert xs []) = card (set (fold List.insert xs []))"
    by (simp add: distinct_card)
  then show ?thesis by (simp add: set_fold_insert)
qed

lemma length_update_each [simp]: "length (update_each f data heap) = length heap"
  unfolding update_each_def by (induction data arbitrary: heap) simp_all

lemma nth_update_each:
  "i < length heap \<Longrightarrow>
     update_each f data heap ! i = fold (\<lambda>c r. if c = i then f c r else r) data (heap ! i)"
  unfolding update_each_def
  by (induction data arbitrary: heap) (simp_all add: nth_list_update)

lemma update_each_Cons:
  "update_each f (c # data) heap = update_each f data (heap[c := f c (heap ! c)])"
  by (simp add: update_each_def)

lemma chain_of_update:
  "chain_of raw h \<Longrightarrow> commit r = commit (h ! c) \<Longrightarrow> previous r = previous (h ! c)
     \<Longrightarrow> chain_of raw (h[c := r])"
  unfolding chain_of_def
proof (intro conjI allI impI)
  fix i
  assume a: "length h = length raw \<and>
    (\<forall>i<length raw. commit (h ! i) = raw ! i \<and>
       previous (h ! i) = (if i = 0 then None else Some (i - 1)))"
    and r: "commit r = commit (h ! c)" "previous r = previous (h ! c)" and i: "i < length raw"
  from a i have "commit (h ! i) = raw ! i"
    and "previous (h ! i) = (if i = 0 then None else Some (i - 1))" by simp_all
  with a r i show "commit (h[c := r] ! i) = raw ! i"
    and "previous (h[c := r] ! i) = (if i = 0 then None else Some (i - 1))"
    by (cases "c = i"; simp)+
qed simp

lemma analyzeNumberOfActiveDevelopers_chain:
  "chain_of raw heap \<Longrightarrow> set data \<subseteq> {..<length raw} \<Longrightarrow>
     analyzeNumberOfActiveDevelopers heap data w =
       Some (update_each (\<lambda>c r. r\<lparr>numberOfActiveDevelopers := Some (active_developers raw c w)\<rparr>)
               data heap)"
proof (induction data arbitrary: heap)
  case Nil
  show ?case by (simp add: update_each_def)
next
  case (Cons c data)
  then have c: "c < length raw" by simp
  with Cons.prems have cm: "commit (heap ! c) = raw ! c"
    and p: "previous (heap ! c) = (if c = 0 then None else Some (c - 1))"
    by (simp_all add: chain_of_def)
  have ch: "chain_of raw (heap[c := (heap ! c)\<lparr>numberOfActiveDevelopers := Some v\<rparr>])" for v
    using Cons.prems(1) by (rule chain_of_update) simp_all
  have walk: "activeDevelopers_walk heap (committed_date (raw ! c) - w)
                (if c = 0 then None else Some (c - 1)) [] =
              Some (fold List.insert (map author_name
                      (history_window raw c (committed_date (raw ! c) - w))) [])"
    using Cons.prems(1) c by (intro activeDevelopers_walk_chain) simp_all
  show ?case
    using Cons.IH [OF ch] Cons.prems(2)
    by (simp add: cm p walk update_each_Cons length_fold_insert active_developers_def)
qed

lemma analyzeDaysSincePreviousCommit_chain:
  "chain_of raw heap \<Longrightarrow> set data \<subseteq> {..<length raw} \<Longrightarrow>
     analyzeDaysSincePreviousCommit heap data w =
       Some (update_each (\<lambda>c r. case days_since_previous raw c w of
                                   None \<Rightarrow> r
                                 | Some d \<Rightarrow> r\<lparr>daysSincePreviousCommitByDeveloper := Some d\<rparr>)
               data heap)"
proof (induction data arbitrary: heap)
  case Nil
  show ?case by (simp add: update_each_def)
next
  case (Cons c data)
  then have c: "c < length raw" by simp
  with Cons.prems have cm: "commit (heap ! c) = raw ! c"
    and p: "previous (heap ! c) = (if c = 0 then None else Some (c - 1))"
    by (simp_all add: chain_of_def)
  have ch: "chain_of raw (heap[c := (heap ! c)\<lparr>daysSincePreviousCommitByDeveloper := Some v\<rparr>])"
    for v
    using Cons.prems(1) by (rule chain_of_update) simp_all
  have walk: "daysSincePreviousCommit_walk heap (committed_date (raw ! c) - w)
                (if c = 0 then None else Some (c - 1)) (raw ! c) =
       Some (case find (\<lambda>r. author_name r = author_name (raw ! c))
                    (history_window raw c (committed_date (raw ! c) - w)) of
               None \<Rightarrow> NoAssignment
             | Some r \<Rightarrow> Assign (int_trunc_div (committed_date (raw ! c) - committed_date r) 86400))"
    using Cons.prems(1) c by (intro daysSincePreviousCommit_walk_chain) simp_all
  show ?case
    using Cons.IH [OF ch] Cons.IH [OF Cons.prems(1)] Cons.prems(2)
    by (simp add: cm p walk update_each_Cons days_since_previous_def split: option.splits)
qed

lemma analyzeNumberOfCommitsInSameDay_chain:
  "chain_of raw heap \<Longrightarrow> set data \<subseteq> {..<length raw} \<Longrightarrow>
     analyzeNumberOfCommitsInSameDay heap data =
       Some (update_each (\<lambda>c r. r\<lparr>numberOfCommitsInLast24h := Some (commits_in_last_24h raw c)\<rparr>)
               data heap)"
proof (induction data arbitrary: heap)
  case Nil
  show ?case by (simp add: update_each_def)
next
  case (Cons c data)
  then have c: "c < length raw" by simp
  with Cons.prems have cm: "commit (heap ! c) = raw ! c"
    and p: "previous (heap ! c) = (if c = 0 then None else Some (c - 1))"
    by (simp_all add: chain_of_def)
  have ch: "chain_of raw (heap[c := (heap ! c)\<lparr>numberOfCommitsInLast24h := Some v\<rparr>])" for v
    using Cons.prems(1) by (rule chain_of_update) simp_all
  have walk: "commitsInSameDay_walk heap (committed_date (raw ! c) - 86400)
                (if c = 0 then None else Some (c - 1)) 0 =
              Some (0 + int (length (history_window raw c (committed_date (raw ! c) - 86400))))"
    using Cons.prems(1) c by (intro commitsInSameDay_walk_chain) simp_all
  show ?case
    using Cons.IH [OF ch] Cons.prems(2)
    by (simp add: cm p walk update_each_Cons commits_in_last_24h_def)
qed

lemma fold_if_preserve:
  "(\<And>c r. g (f c r) = g r) \<Longrightarrow> g (fold (\<lambda>c r. if c = i then f c r else r) data r0) = g r0"
  by (induction data arbitrary: r0) simp_all

lemma fold_if_set:
  "(\<And>c r. g (f c r) = (case v c of None \<Rightarrow> g r | Some x \<Rightarrow> Some x)) \<Longrightarrow>
     g (fold (\<lambda>c r. if c = i then f c r else r) data r0) =
       (if i \<in> set data then (case v i of None \<Rightarrow> g r0 | Some x \<Rightarrow> Some x) else g r0)"
  by (induction data arbitrary: r0) (auto split: option.splits)

lemma update_each_preserve:
  "i < length heap \<Longrightarrow> (\<And>c r. g (f c r) = g r) \<Longrightarrow>
     g (update_each f data heap ! i) = g (heap ! i)"
  by (simp add: nth_update_each fold_if_preserve)

lemma update_each_set:
  "i < length heap \<Longrightarrow> (\<And>c r. g (f c r) = (case v c of None \<Rightarrow> g r | Some x \<Rightarrow> Some x)) \<Longrightarrow>
     g (update_each f data heap ! i) =
       (if i \<in> set data then (case v i of None \<Rightarrow> g (heap ! i) | Some x \<Rightarrow> Some x)
        else g (heap ! i))"
  by (simp add: nth_update_each fold_if_set)

lemma chain_of_update_each:
  assumes "chain_of raw heap" and "\<And>c r. commit (f c r) = commit r"
    and "\<And>c r. previous (f c r) = previous r"
  shows "chain_of raw (update_each f data heap)"
  using assms(1) unfolding chain_of_def
  by (auto simp: update_each_preserve [where g = commit, OF _ assms(2)]
        update_each_preserve [where g = previous, OF _ assms(3)])

lemma createDataSet_Inr:
  "createDataSet fm (Inr log) st et fa fc =
     (if filter (\<lambda>i. analyzable fm st et fa fc (rev log ! i)) [0..<length log] = []
      then Inl NoCommitsFound
      else Inr (map (linked (rev log)) [0..<length log],
                filter (\<lambda>i. analyzable fm st et fa fc (rev log ! i)) [0..<length log]))"
  by (simp add: createDataSet_def createDataSet_fold)

lemma chain_of_linked: "chain_of raw (map (linked raw) [0..<length raw])"
  by (simp add: chain_of_def linked_def new_AnnotatedCommit_def)


lemma createDataSet_cases:
  assumes "createDataSet fm (Inr log) st et fa fc = Inr (heap, data)"
  shows "heap = map (linked (rev log)) [0..<length log]"
    and "data = filter (\<lambda>i. analyzable fm st et fa fc (rev log ! i)) [0..<length log]"
    and "chain_of (rev log) heap"
    and "set data \<subseteq> {..<length (rev log)}"
    and "data \<noteq> []"
proof -
  from assms show h: "heap = map (linked (rev log)) [0..<length log]"
    and d: "data = filter (\<lambda>i. analyzable fm st et fa fc (rev log ! i)) [0..<length log]"
    and "data \<noteq> []"
    by (auto simp: createDataSet_Inr split: if_splits)
  from h show "chain_of (rev log) heap" using chain_of_linked [of "rev log"] by simp
  from d show "set data \<subseteq> {..<length (rev log)}" by auto
qed

lemma history_window_mono:
  "c2 \<le> c1 \<Longrightarrow> set (history_window raw i c1) \<subseteq> set (history_window raw i c2)"
proof -
  assume le: "c2 \<le> c1"
  have "set (takeWhile (\<lambda>r. committed_date r > c1) xs) \<subseteq>
        set (takeWhile (\<lambda>r. committed_date r > c2) xs)" for xs
    using le by (induction xs) auto
  then show ?thesis by (simp add: history_window_def)
qed

lemma active_developers_mono:
  "w1 \<le> w2 \<Longrightarrow> active_developers raw c w1 \<le> active_developers raw c w2"
  unfolding active_developers_def
  by (intro iffD2 [OF of_nat_le_iff] card_mono finite_imageI image_mono history_window_mono)
     simp_all

section \<open>The example history, evaluated\<close>

lemma ex_createDataSet:
  "createDataSet ex_filter_match (Inr ex_log) 0 10000 [''bob''] [] = Inr (ex_heap, [2])"
  by (simp add: createDataSet_def createDataSet_step_def analyzable_def ex_log_def
        ex_heap_def ex_record_def ex_filter_match_def ex_commit0_def ex_commit1_def
        ex_commit2_def new_AnnotatedCommit_def)

lemma ex_heap_commit1: "commit ((ex_heap @ [ex_baseline]) ! 1) = ex_commit1"
  by (simp add: ex_heap_def ex_record_def new_AnnotatedCommit_def)

lemma ex_blob_stats1: "blob_stats ex_parser ex_blob1 = ex_stats1"
  by (simp add: blob_stats_def ex_parser_def ex_blob1_def ex_stats1_def new_BlobStats_def)

lemma ex_blob_stats2: "blob_stats ex_parser ex_blob2 = ex_stats2"
  by (simp add: blob_stats_def ex_parser_def ex_blob2_def ex_stats2_def new_BlobStats_def)

lemma ex_supported_a: "ex_supported ''a.c''"
  by (simp add: ex_supported_def)

lemma ex_tree_delta1:
  "tree_delta ex_supported ex_parser ex_git_diff ex_commit1 = Inr [(''a.c'', Some ex_stats1)]"
  by (simp add: tree_delta_def parent_diff_def ex_commit1_def ex_git_diff_def
        tree_delta_step_def tree_delta_set_def startswith_def ex_supported_a ex_blob_stats1)

lemma ex_tree_delta2:
  "tree_delta ex_supported ex_parser ex_git_diff ex_commit2 = Inr [(''a.c'', Some ex_stats2)]"
  by (simp add: tree_delta_def parent_diff_def ex_commit2_def ex_git_diff_def
        tree_delta_step_def tree_delta_set_def startswith_def ex_supported_a ex_blob_stats2)

lemma ex_heap_nth:
  "ex_heap ! 0 = ex_record ex_commit0 None (Some 1)"
  "ex_heap ! 1 = ex_record ex_commit1 (Some 0) (Some 2)"
  "ex_heap ! 2 = ex_record ex_commit2 (Some 1) None"
  "length ex_heap = 3"
  by (simp_all add: ex_heap_def eval_nat_numeral)

lemma ex_record_sel:
  "commit (ex_record c p n) = c" "previous (ex_record c p n) = p"
  "loc (ex_record c p n) = None" "levenshteinDistance (ex_record c p n) = None"
  by (simp_all add: ex_record_def new_AnnotatedCommit_def)

lemma ex_analyze_tree0: "analyze_tree ex_supported ex_parser (tree ex_commit0) = []"
  by (simp add: ex_commit0_def)

lemma ex_parents:
  "parents ex_commit0 = []" "parents ex_commit1 = [ex_commit0]" "parents ex_commit2 = [ex_commit1]"
  by (simp_all add: ex_commit0_def ex_commit1_def ex_commit2_def)

lemma ex_analyzeSizeAndComplexity:
  "analyzeSizeAndComplexity ex_supported ex_parser ex_git_diff ex_heap [1, 2] = Inr ex_heap_sized"
proof -
  have s1: "analyzeSizeAndComplexity_step ex_supported ex_parser ex_git_diff 1
              (ex_heap @ [ex_baseline], 3, []) =
            Inr ([ex_heap_sized ! 0, ex_heap_sized ! 1, ex_heap ! 2, ex_baseline], 1,
                 [(''a.c'', ex_stats1)])"
    apply (simp only: analyzeSizeAndComplexity_step_def split_conv ex_heap_commit1
             ex_tree_delta1 sum.case)
    apply (simp add: aggregate_delta_def aggregate_delta_step_def ex_heap_def ex_stats1_def
             ex_heap_sized_def ex_baseline_def Let_def eval_nat_numeral apply_delta_to_tree_def
             ex_record_def new_AnnotatedCommit_def)
    done
  have c2: "commit ([ex_heap_sized ! 0, ex_heap_sized ! 1, ex_heap ! 2, ex_baseline] ! 2)
              = ex_commit2"
    by (simp add: eval_nat_numeral ex_heap_def ex_record_sel)
  have s2: "analyzeSizeAndComplexity_step ex_supported ex_parser ex_git_diff 2
              ([ex_heap_sized ! 0, ex_heap_sized ! 1, ex_heap ! 2, ex_baseline], 1,
               [(''a.c'', ex_stats1)]) =
            Inr (ex_heap_sized, 2, [(''a.c'', ex_stats2)])"
    apply (simp only: analyzeSizeAndComplexity_step_def split_conv c2 ex_tree_delta2 sum.case)
    apply (simp add: aggregate_delta_def aggregate_delta_step_def ex_heap_def ex_stats1_def
             ex_stats2_def ex_heap_sized_def ex_baseline_def Let_def eval_nat_numeral
             apply_delta_to_tree_def ex_record_def new_AnnotatedCommit_def)
    done
  have base: "(new_AnnotatedCommit ex_commit0)
                \<lparr>loc := Some 0, cyclomaticComplexity := Some 0, functionsCount := Some 0\<rparr>
              = ex_baseline"
    by (simp add: ex_baseline_def)
  show ?thesis
    apply (simp only: analyzeSizeAndComplexity_def list.case ex_heap_nth ex_record_sel
             ex_parents ex_analyze_tree0 Let_def)
    apply (simp only: aggregate_stats_from_blobs_def fold_simps id_apply split_conv base
             fold_err.simps s1 s2 sum.case)
    done
qed

lemma ex_analyze_tree1:
  "analyze_tree ex_supported ex_parser (tree ex_commit1) = [(''a.c'', ex_stats1)]"
  by (simp add: ex_commit1_def ex_blob_stats1 ex_supported_def
        ex_blob1_def [THEN arg_cong, of path])

lemma ex_analyzeSizeAndComplexity_filtered:
  "analyzeSizeAndComplexity ex_supported ex_parser ex_git_diff ex_heap [2]
     = Inr ex_heap_sized_filtered"
proof -
  have c2: "commit ((ex_heap @ [ex_baseline1]) ! 2) = ex_commit2"
    by (simp add: eval_nat_numeral ex_heap_def ex_record_sel)
  have s2: "analyzeSizeAndComplexity_step ex_supported ex_parser ex_git_diff 2
              (ex_heap @ [ex_baseline1], 3, [(''a.c'', ex_stats1)]) =
            Inr (ex_heap_sized_filtered, 2, [(''a.c'', ex_stats2)])"
    apply (simp only: analyzeSizeAndComplexity_step_def split_conv c2 ex_tree_delta2 sum.case)
    apply (simp add: aggregate_delta_def aggregate_delta_step_def ex_heap_def ex_stats1_def
             ex_stats2_def ex_heap_sized_filtered_def ex_baseline1_def Let_def eval_nat_numeral
             apply_delta_to_tree_def ex_record_def new_AnnotatedCommit_def)
    done
  have base: "(new_AnnotatedCommit ex_commit1)
                \<lparr>loc := Some 10, cyclomaticComplexity := Some 3, functionsCount := Some 1\<rparr>
              = ex_baseline1"
    by (simp add: ex_baseline1_def)
  have agg: "aggregate_stats_from_blobs [(''a.c'', ex_stats1)] = (10, 3, 1)"
    by (simp add: aggregate_stats_from_blobs_def ex_stats1_def)
  show ?thesis
    apply (simp only: analyzeSizeAndComplexity_def list.case ex_heap_nth ex_record_sel
             ex_parents ex_analyze_tree1 Let_def agg split_conv base)
    apply (simp only: fold_err.simps s2 sum.case split_conv)
    done
qed

lemma ex_createDataSet_short:
  "createDataSet ex_filter_match (Inr ex_log_short) 0 10000 [] [] = Inr (ex_heap_short, [0, 1])"
  by (simp add: createDataSet_def createDataSet_step_def analyzable_def ex_log_short_def
        ex_heap_short_def ex_record_def ex_filter_match_def ex_commit1_def
        ex_commit2_def new_AnnotatedCommit_def)

lemma ex_blob_delta:
  "blob_delta ex_git_diff_output file_a file_b = 1"
  by (simp add: blob_delta_def ex_git_diff_output_def blob_delta_lines_def blob_delta_line_def
        startswith_def)

lemma ex_commitDistance2:
  "commitDistance ex_supported ex_git_diff ex_git_diff_output ex_commit2 = Inr 1"
  by (simp add: commitDistance_def ex_parents ex_git_diff_def commitDistance_step_def
        ex_supported_a ex_blob_delta startswith_def ex_commit2_def [THEN arg_cong, of hexsha])

lemma ex_analyzeLevenshteinDistance_short:
  "analyzeLevenshteinDistance ex_supported ex_git_diff ex_git_diff_output ex_heap_short [0, 1]
     = Inr ex_heap_short_distance"
  by (simp add: analyzeLevenshteinDistance_def ex_heap_short_def ex_record_sel
        ex_commitDistance2 ex_heap_short_distance_def)

lemma ex_find_complex_functions:
  "find_complex_functions ex_supported ex_parser ex_git_diff ex_heap [1, 2] []
     = Inr [(''a.c.f'', 20)]"
proof -
  have c1: "commit (ex_heap ! 1) = ex_commit1" and c2: "commit (ex_heap ! 2) = ex_commit2"
    by (simp_all add: ex_heap_def ex_record_sel eval_nat_numeral)
  have b1: "blobs_to_scan ex_supported ex_git_diff (0 + 1) ex_commit1 = Inr [ex_blob1]"
    by (simp add: blobs_to_scan_def ex_commit1_def ex_supported_def
          ex_blob1_def [THEN arg_cong, of path])
  have b2: "blobs_to_scan ex_supported ex_git_diff (0 + 1 + 1) ex_commit2 = Inr [ex_blob2]"
    by (simp add: blobs_to_scan_def parent_diff_def ex_parents ex_git_diff_def ex_supported_def
          ex_commit2_def [THEN arg_cong, of hexsha] ex_blob2_def [THEN arg_cong, of path])
  have s1: "fold (scan_blob ex_parser []) [ex_blob1] [] = []"
    by (simp add: scan_blob_def record_function_def ex_parser_def ex_blob1_def)
  have s2: "fold (scan_blob ex_parser []) [ex_blob2] [] = [(''a.c.f'', 20)]"
    by (simp add: scan_blob_def record_function_def ex_parser_def ex_blob2_def)
  show ?thesis
    by (simp only: find_complex_functions_def fold_err.simps split_conv c1 c2 b1 b2 sum.case
          s1 s2)
qed

lemma ex_observations:
  "observations ex_parser []
     (measured_blobs ex_supported ex_git_diff (map (\<lambda>c. commit (ex_heap ! c)) [1, 2]))
   = [(''a.c.f'', 3), (''a.c.f'', 20)]"
proof -
  have m: "map (\<lambda>c. commit (ex_heap ! c)) [1, 2] = [ex_commit1, ex_commit2]"
    by (simp add: ex_heap_def ex_record_sel eval_nat_numeral)
  have t: "tree ex_commit1 = Tree [ex_blob1] []" by (simp add: ex_commit1_def)
  have d: "ex_git_diff ex_commit1 ex_commit2 =
             [\<lparr>change_type = ''M'', a_path = ''a.c'', b_path = ''a.c'',
               a_blob = Some ex_blob1, b_blob = Some ex_blob2\<rparr>]"
    by (simp add: ex_git_diff_def ex_commit2_def)
  have p: "path ex_blob1 = ''a.c''" "path ex_blob2 = ''a.c''"
    by (simp_all add: ex_blob1_def ex_blob2_def)
  have mb: "measured_blobs ex_supported ex_git_diff [ex_commit1, ex_commit2]
              = [ex_blob1, ex_blob2]"
    by (simp add: measured_blobs_def t ex_parents d changed_blobs_def List.map_filter_simps p
          ex_supported_a)
  show ?thesis
    unfolding m mb
    by (simp add: observations_def ex_parser_def ex_blob1_def ex_blob2_def)
qed

section \<open>The complex-function contribution tracker\<close>

text \<open>
  C5. For a re-measured function that belongs to the caller's set of complex functions, with
  the previous complexity read from the function complexity map (0 when the function is
  absent): when the previous value is above 11 and the new one is lower, the difference is
  added to the commit's decrease field (an unset field counting as 0), and otherwise that
  field is left alone; when the new value is above 11 and higher than the previous one, the
  difference is added to the increase field, and otherwise that field is left alone; in
  every case the map holds the new value afterwards.
\<close>

theorem complex_function_contribution:
  assumes "c < length heap"
    and "function \<in> set complex_functions"
    and "contribution_item complex_functions c (function, complexity)
           (heap, previous_function_complexities) = (heap', previous_function_complexities')"
    and "previous_complexity =
           (case map_of previous_function_complexities function of Some v \<Rightarrow> v | None \<Rightarrow> 0)"
  shows "(previous_complexity > 11 \<and> complexity < previous_complexity \<longrightarrow>
            decreaseOfComplexityInComplexFunctions (heap' ! c) =
              Some ((case decreaseOfComplexityInComplexFunctions (heap ! c) of
                       None \<Rightarrow> 0 | Some v \<Rightarrow> v) + (previous_complexity - complexity)))
       \<and> (\<not> (previous_complexity > 11 \<and> complexity < previous_complexity) \<longrightarrow>
            decreaseOfComplexityInComplexFunctions (heap' ! c) =
              decreaseOfComplexityInComplexFunctions (heap ! c))
       \<and> (complexity > 11 \<and> complexity > previous_complexity \<longrightarrow>
            increaseOfComplexityInComplexFunctions (heap' ! c) =
              Some ((case increaseOfComplexityInComplexFunctions (heap ! c) of
                       None \<Rightarrow> 0 | Some v \<Rightarrow> v) + (complexity - previous_complexity)))
       \<and> (\<not> (complexity > 11 \<and> complexity > previous_complexity) \<longrightarrow>
            increaseOfComplexityInComplexFunctions (heap' ! c) =
              increaseOfComplexityInComplexFunctions (heap ! c))
       \<and> map_of previous_function_complexities' function = Some complexity"
  using assms
  by (auto simp: contribution_item_def update_complex_function_contribution_of_commit_def
        accumulate_def update_conv Let_def split: option.splits)

theorem complex_function_contribution_witness:
  "increaseOfComplexityInComplexFunctions
     (fst (contribution_item [''a.c.f''] 0 (''a.c.f'', 20)
             ([new_AnnotatedCommit ex_commit2], [(''a.c.f'', 3)])) ! 0) = Some 17
   \<and> decreaseOfComplexityInComplexFunctions
     (fst (contribution_item [''a.c.f''] 0 (''a.c.f'', 20)
             ([new_AnnotatedCommit ex_commit2], [(''a.c.f'', 3)])) ! 0) = None
   \<and> map_of (snd (contribution_item [''a.c.f''] 0 (''a.c.f'', 20)
             ([new_AnnotatedCommit ex_commit2], [(''a.c.f'', 3)]))) ''a.c.f'' = Some 20"
proof -
  have h1: "(0::nat) < length [new_AnnotatedCommit ex_commit2]" by simp
  have h2: "''a.c.f'' \<in> set [''a.c.f'']" by simp
  have h3: "contribution_item [''a.c.f''] 0 (''a.c.f'', 20)
              ([new_AnnotatedCommit ex_commit2], [(''a.c.f'', 3)])
            = (fst (contribution_item [''a.c.f''] 0 (''a.c.f'', 20)
                     ([new_AnnotatedCommit ex_commit2], [(''a.c.f'', 3)])),
               snd (contribution_item [''a.c.f''] 0 (''a.c.f'', 20)
                     ([new_AnnotatedCommit ex_commit2], [(''a.c.f'', 3)])))"
    by simp
  have h4: "(3::int) = (case map_of [(''a.c.f'', 3::int)] ''a.c.f'' of Some v \<Rightarrow> v | None \<Rightarrow> 0)"
    by simp
  from complex_function_contribution [OF h1 h2 h3 h4]
  show ?thesis by (simp add: new_AnnotatedCommit_def)
qed

section \<open>The commit chain builder\<close>



section \<open>Filtered commits and the history walks\<close>

text \<open>
  C4. For a data set built by \<open>createDataSet\<close>: no commit that the filter predicate matches
  is in it; the store has one record per commit of the log, filtered or not, and the
  \<open>previous\<close> and \<open>next\<close> links connect the records of neighbouring log positions; and each
  of the three windowed analyzers ends and gives every element of the data set the value of
  the metric counted on the unfiltered log, so that commits which are excluded or outside
  the interval are walked and counted.
\<close>

theorem excluded_commits_remain_in_history:
  assumes "createDataSet fm (Inr log) st et fa fc = Inr (heap, data)"
  shows "(\<forall>c\<in>set data. \<not> fm (commit (heap ! c)) fa fc)
       \<and> length heap = length log
       \<and> (\<forall>i<length heap.
             commit (heap ! i) = rev log ! i \<and>
             previous (heap ! i) = (if i = 0 then None else Some (i - 1)) \<and>
             next_commit (heap ! i) = (if Suc i < length heap then Some (Suc i) else None))
       \<and> (\<exists>heap1. analyzeNumberOfActiveDevelopers heap data w = Some heap1 \<and>
             (\<forall>c\<in>set data. numberOfActiveDevelopers (heap1 ! c) =
                               Some (active_developers (rev log) c w)))
       \<and> (\<exists>heap2. analyzeDaysSincePreviousCommit heap data w = Some heap2 \<and>
             (\<forall>c\<in>set data. daysSincePreviousCommitByDeveloper (heap2 ! c) =
                               days_since_previous (rev log) c w))
       \<and> (\<exists>heap3. analyzeNumberOfCommitsInSameDay heap data = Some heap3 \<and>
             (\<forall>c\<in>set data. numberOfCommitsInLast24h (heap3 ! c) =
                               Some (commits_in_last_24h (rev log) c)))"
proof -
  note cds = createDataSet_cases [OF assms]
  have len: "length heap = length log" using cds(1) by simp
  have valid: "c < length heap" if "c \<in> set data" for c using that cds(4) len by auto
  have excl: "\<forall>c\<in>set data. \<not> fm (commit (heap ! c)) fa fc"
    unfolding cds(1) cds(2)
    by (auto simp: analyzable_def linked_def new_AnnotatedCommit_def)
  have links: "\<forall>i<length heap.
             commit (heap ! i) = rev log ! i \<and>
             previous (heap ! i) = (if i = 0 then None else Some (i - 1)) \<and>
             next_commit (heap ! i) = (if Suc i < length heap then Some (Suc i) else None)"
    unfolding cds(1) by (simp add: linked_def new_AnnotatedCommit_def)
  have a1: "\<forall>c\<in>set data. numberOfActiveDevelopers
       (update_each (\<lambda>c r. r\<lparr>numberOfActiveDevelopers := Some (active_developers (rev log) c w)\<rparr>)
          data heap ! c) = Some (active_developers (rev log) c w)"
    by (auto simp: valid
          update_each_set [where g = numberOfActiveDevelopers
                             and v = "\<lambda>c. Some (active_developers (rev log) c w)"])
  have init: "daysSincePreviousCommitByDeveloper (heap ! c) = None" if "c \<in> set data" for c
    using valid [OF that] unfolding cds(1) by (simp add: linked_def new_AnnotatedCommit_def)
  have a2: "\<forall>c\<in>set data. daysSincePreviousCommitByDeveloper
       (update_each (\<lambda>c r. case days_since_previous (rev log) c w of
                                   None \<Rightarrow> r
                                 | Some d \<Rightarrow> r\<lparr>daysSincePreviousCommitByDeveloper := Some d\<rparr>)
          data heap ! c) = days_since_previous (rev log) c w"
    by (auto simp: valid init
          update_each_set [where g = daysSincePreviousCommitByDeveloper
                             and v = "\<lambda>c. days_since_previous (rev log) c w"]
          split: option.splits)
  have a3: "\<forall>c\<in>set data. numberOfCommitsInLast24h
       (update_each (\<lambda>c r. r\<lparr>numberOfCommitsInLast24h := Some (commits_in_last_24h (rev log) c)\<rparr>)
          data heap ! c) = Some (commits_in_last_24h (rev log) c)"
    by (auto simp: valid
          update_each_set [where g = numberOfCommitsInLast24h
                             and v = "\<lambda>c. Some (commits_in_last_24h (rev log) c)"])
  show ?thesis
    using excl len links a1 a2 a3
    by (simp only: analyzeNumberOfActiveDevelopers_chain [OF cds(3) cds(4)]
          analyzeDaysSincePreviousCommit_chain [OF cds(3) cds(4)]
          analyzeNumberOfCommitsInSameDay_chain [OF cds(3) cds(4)]) blast
qed

theorem excluded_commits_remain_in_history_witness:
  "createDataSet ex_filter_match (Inr ex_log) 0 10000 [''bob''] [] = Inr (ex_heap, [2])
   \<and> ex_filter_match (commit (ex_heap ! 1)) [''bob''] []
   \<and> (\<exists>heap1. analyzeNumberOfActiveDevelopers ex_heap [2] 5000 = Some heap1 \<and>
          numberOfActiveDevelopers (heap1 ! 2) = Some 2)
   \<and> (\<exists>heap3. analyzeNumberOfCommitsInSameDay ex_heap [2] = Some heap3 \<and>
          numberOfCommitsInLast24h (heap3 ! 2) = Some 2)"
proof -
  note run = ex_createDataSet
  have excl: "ex_filter_match (commit (ex_heap ! 1)) [''bob''] []"
    by (simp add: ex_heap_def ex_record_def new_AnnotatedCommit_def ex_filter_match_def
          ex_commit1_def)
  have ne: "ex_commit0 \<noteq> ex_commit1" by (simp add: ex_commit0_def ex_commit1_def)
  have act: "active_developers (rev ex_log) 2 5000 = 2"
    by (simp add: active_developers_def history_window_def ex_log_def ex_commit0_def
          ex_commit1_def ex_commit2_def numeral_2_eq_2)
  have day: "commits_in_last_24h (rev ex_log) 2 = 2"
    by (simp add: commits_in_last_24h_def history_window_def ex_log_def ex_commit0_def
          ex_commit1_def ex_commit2_def numeral_2_eq_2)
  from excluded_commits_remain_in_history [OF run, of 5000] act day
  have "(\<exists>heap1. analyzeNumberOfActiveDevelopers ex_heap [2] 5000 = Some heap1 \<and>
          numberOfActiveDevelopers (heap1 ! 2) = Some 2)
   \<and> (\<exists>heap3. analyzeNumberOfCommitsInSameDay ex_heap [2] = Some heap3 \<and>
          numberOfCommitsInLast24h (heap3 ! 2) = Some 2)"
    by simp
  with run excl show ?thesis by simp
qed

section \<open>Monotonicity in the activity window\<close>

lemma activity_analyses_chain:
  assumes "chain_of raw heap" and "set data \<subseteq> {..<length raw}"
  shows "activity_analyses heap data w =
     Some (update_each (\<lambda>c r. r\<lparr>numberOfCommitsInLast24h := Some (commits_in_last_24h raw c)\<rparr>) data
          (update_each (\<lambda>c r. case days_since_previous raw c w of
                                   None \<Rightarrow> r
                                 | Some d \<Rightarrow> r\<lparr>daysSincePreviousCommitByDeveloper := Some d\<rparr>) data
          (update_each (\<lambda>c r. r\<lparr>numberOfActiveDevelopers := Some (active_developers raw c w)\<rparr>)
             data heap)))"
proof -
  let ?h1 = "update_each (\<lambda>c r. r\<lparr>numberOfActiveDevelopers := Some (active_developers raw c w)\<rparr>)
             data heap"
  let ?h2 = "update_each (\<lambda>c r. case days_since_previous raw c w of
                                   None \<Rightarrow> r
                                 | Some d \<Rightarrow> r\<lparr>daysSincePreviousCommitByDeveloper := Some d\<rparr>) data ?h1"
  have c1: "chain_of raw ?h1" using assms(1) by (rule chain_of_update_each) simp_all
  have c2: "chain_of raw ?h2" using c1 by (rule chain_of_update_each) (simp_all split: option.splits)
  show ?thesis
    unfolding activity_analyses_def
    by (simp add: analyzeNumberOfActiveDevelopers_chain [OF assms]
          analyzeDaysSincePreviousCommit_chain [OF c1 assms(2)]
          analyzeNumberOfCommitsInSameDay_chain [OF c2 assms(2)])
qed

text \<open>
  C8. For a data set built by \<open>createDataSet\<close> and one of its commits: running the three
  windowed analyzers with an activity window \<open>w1\<close> and with a window \<open>w2\<close> that is at
  least as large, both runs end, the active-developer count of the second run is at least
  that of the first, and the commits-in-last-24h counts of the two runs are equal.
\<close>

theorem windowed_metrics_monotone:
  assumes "createDataSet fm (Inr log) st et fa fc = Inr (heap, data)"
    and "w1 \<le> w2" and "c \<in> set data"
  shows "\<exists>heap1 heap2 a1 a2 n.
           activity_analyses heap data w1 = Some heap1 \<and>
           activity_analyses heap data w2 = Some heap2 \<and>
           numberOfActiveDevelopers (heap1 ! c) = Some a1 \<and>
           numberOfActiveDevelopers (heap2 ! c) = Some a2 \<and> a1 \<le> a2 \<and>
           numberOfCommitsInLast24h (heap1 ! c) = Some n \<and>
           numberOfCommitsInLast24h (heap2 ! c) = Some n"
proof -
  note cds = createDataSet_cases [OF assms(1)]
  let ?raw = "rev log"
  have valid: "c < length heap" using assms(3) cds(1) cds(4) by auto
  define final where "final w =
     update_each (\<lambda>c r. r\<lparr>numberOfCommitsInLast24h := Some (commits_in_last_24h ?raw c)\<rparr>) data
          (update_each (\<lambda>c r. case days_since_previous ?raw c w of
                                   None \<Rightarrow> r
                                 | Some d \<Rightarrow> r\<lparr>daysSincePreviousCommitByDeveloper := Some d\<rparr>) data
          (update_each (\<lambda>c r. r\<lparr>numberOfActiveDevelopers := Some (active_developers ?raw c w)\<rparr>)
             data heap))" for w
  have run: "activity_analyses heap data w = Some (final w)" for w
    unfolding final_def by (rule activity_analyses_chain [OF cds(3) cds(4)])
  have act: "numberOfActiveDevelopers (final w ! c) = Some (active_developers ?raw c w)" for w
    unfolding final_def using valid assms(3)
    by (simp add: update_each_preserve [where g = numberOfActiveDevelopers] split: option.splits
          add: update_each_set [where g = numberOfActiveDevelopers
                                  and v = "\<lambda>c. Some (active_developers ?raw c w)"])
  have day: "numberOfCommitsInLast24h (final w ! c) = Some (commits_in_last_24h ?raw c)" for w
    unfolding final_def using valid assms(3)
    by (simp add: update_each_set [where g = numberOfCommitsInLast24h
                                  and v = "\<lambda>c. Some (commits_in_last_24h ?raw c)"])
  from active_developers_mono [OF assms(2)] run act day show ?thesis by blast
qed

theorem windowed_metrics_monotone_witness:
  "\<exists>heap1 heap2 a1 a2 n.
     activity_analyses ex_heap [2] 1500 = Some heap1 \<and>
     activity_analyses ex_heap [2] 5000 = Some heap2 \<and>
     numberOfActiveDevelopers (heap1 ! 2) = Some a1 \<and>
     numberOfActiveDevelopers (heap2 ! 2) = Some a2 \<and> a1 \<le> a2 \<and>
     numberOfCommitsInLast24h (heap1 ! 2) = Some n \<and>
     numberOfCommitsInLast24h (heap2 ! 2) = Some n"
proof -
  have le: "(1500::int) \<le> 5000" by simp
  have mem: "(2::nat) \<in> set [2]" by simp
  from windowed_metrics_monotone [OF ex_createDataSet le mem] show ?thesis .
qed

section \<open>The tree snapshot under a tree delta\<close>

lemma map_of_apply_delta_to_tree:
  "distinct (map fst delta_tree) \<Longrightarrow>
     map_of (apply_delta_to_tree previous_tree delta_tree) p =
       (case map_of delta_tree p of
          None \<Rightarrow> map_of previous_tree p
        | Some None \<Rightarrow> None
        | Some (Some new) \<Rightarrow> Some new)"
proof (induction delta_tree arbitrary: previous_tree)
  case Nil
  show ?case by (simp add: apply_delta_to_tree_def)
next
  case (Cons item delta_tree)
  obtain q v where item: "item = (q, v)" by (cases item)
  from Cons.prems item have notin: "map_of delta_tree q = None" and d: "distinct (map fst delta_tree)"
    by (simp_all add: map_of_eq_None_iff)
  have unfold: "apply_delta_to_tree previous_tree (item # delta_tree) =
      apply_delta_to_tree (case v of None \<Rightarrow> AList.delete q previous_tree
                                   | Some new \<Rightarrow> AList.update q new previous_tree) delta_tree"
    by (simp add: apply_delta_to_tree_def item)
  show ?case
  proof (cases "p = q")
    case True
    then show ?thesis
      unfolding unfold Cons.IH [OF d] using notin
      by (simp add: item delete_conv' update_conv' split: option.splits)
  next
    case False
    then show ?thesis
      unfolding unfold Cons.IH [OF d]
      by (simp add: item delete_conv' update_conv' split: option.splits)
  qed
qed

lemma analyzeSizeAndComplexity_step_Inr:
  assumes "analyzeSizeAndComplexity_step ext lz gd c (heap, pc, previous_tree) = Inr (heap', pc', t')"
    and "c < length heap"
  shows "\<exists>td pl pcc pf.
           tree_delta ext lz gd (commit (heap ! c)) = Inr td \<and>
           pc' = c \<and> length heap' = length heap \<and>
           t' = apply_delta_to_tree previous_tree td \<and>
           loc (heap ! pc) = Some pl \<and>
           cyclomaticComplexity (heap ! pc) = Some pcc \<and>
           functionsCount (heap ! pc) = Some pf \<and>
           heap' = heap[c := (heap ! c)
                     \<lparr>loc := Some (pl + fst (aggregate_delta previous_tree td)),
                      deltaLoc := Some (fst (aggregate_delta previous_tree td)),
                      cyclomaticComplexity :=
                        Some (pcc + fst (snd (aggregate_delta previous_tree td))),
                      deltaCyclomaticComplexity :=
                        Some (fst (snd (aggregate_delta previous_tree td))),
                      functionsCount := Some (pf + snd (snd (aggregate_delta previous_tree td))),
                      deltaFunctions := Some (snd (snd (aggregate_delta previous_tree td)))\<rparr>]"
proof -
  from assms(1) obtain td where td: "tree_delta ext lz gd (commit (heap ! c)) = Inr td"
    by (auto simp: analyzeSizeAndComplexity_step_def split: sum.splits)
  obtain dl dc df where agg: "aggregate_delta previous_tree td = (dl, dc, df)"
    by (cases "aggregate_delta previous_tree td") auto
  from assms(1) td agg obtain pl where pl: "loc (heap ! pc) = Some pl"
    by (auto simp: analyzeSizeAndComplexity_step_def split: option.splits)
  let ?h1 = "heap[c := (heap ! c)\<lparr>loc := Some (pl + dl), deltaLoc := Some dl\<rparr>]"
  from assms(1) td agg pl obtain pcc where pcc: "cyclomaticComplexity (?h1 ! pc) = Some pcc"
    by (auto simp: analyzeSizeAndComplexity_step_def Let_def split: option.splits)
  let ?h2 = "?h1[c := (?h1 ! c)\<lparr>cyclomaticComplexity := Some (pcc + dc),
                                   deltaCyclomaticComplexity := Some dc\<rparr>]"
  from assms(1) td agg pl pcc obtain pf where pf: "functionsCount (?h2 ! pc) = Some pf"
    by (auto simp: analyzeSizeAndComplexity_step_def Let_def split: option.splits)
  let ?h3 = "?h2[c := (?h2 ! c)\<lparr>functionsCount := Some (pf + df),
                                   deltaFunctions := Some df\<rparr>]"
  have "analyzeSizeAndComplexity_step ext lz gd c (heap, pc, previous_tree) =
          Inr (?h3, c, apply_delta_to_tree previous_tree td)"
    using td agg pl pcc pf by (simp add: analyzeSizeAndComplexity_step_def Let_def)
  from trans [OF assms(1) [symmetric] this]
  have "heap' = ?h3 \<and> pc' = c \<and> t' = apply_delta_to_tree previous_tree td"
    unfolding sum.inject prod.inject .
  then have res: "heap' = ?h3" "pc' = c" "t' = apply_delta_to_tree previous_tree td"
    by (rule conjunct1, rule conjunct2 [THEN conjunct1], rule conjunct2 [THEN conjunct2])
  have pcc': "cyclomaticComplexity (heap ! pc) = Some pcc"
    using pcc assms(2) by (cases "pc = c") simp_all
  have pf': "functionsCount (heap ! pc) = Some pf"
    using pf assms(2) by (cases "pc = c") simp_all
  have "?h3 = heap[c := (heap ! c)
                     \<lparr>loc := Some (pl + dl), deltaLoc := Some dl,
                      cyclomaticComplexity := Some (pcc + dc),
                      deltaCyclomaticComplexity := Some dc,
                      functionsCount := Some (pf + df), deltaFunctions := Some df\<rparr>]"
    using assms(2) by simp
  with res td pl pcc' pf' agg show ?thesis by simp
qed

lemma tree_delta_set_distinct:
  "tree_delta_set lz p blob td = Inr td' \<Longrightarrow> distinct (map fst td) \<Longrightarrow> distinct (map fst td')"
  by (auto simp: tree_delta_set_def distinct_update split: option.splits)

lemma tree_delta_step_distinct:
  assumes "tree_delta_step ext lz diff td = Inr td'" and "distinct (map fst td)"
  shows "distinct (map fst td')"
proof -
  have upd: "distinct (map fst (AList.update k None t))" if "distinct (map fst t)"
    for k and t :: "(string \<times> BlobStats option) list"
    using that by (rule distinct_update)
  from assms(1) obtain td1 where
    td1: "(if change_type diff = ''A'' \<or> change_type diff = ''M''
            then (if ext (b_path diff)
                  then tree_delta_set lz (b_path diff) (b_blob diff) td
                  else Inr td)
            else Inr td) = Inr td1"
    by (auto simp: tree_delta_step_def split: sum.splits)
  then have d1: "distinct (map fst td1)"
    using assms(2) by (auto split: if_splits dest: tree_delta_set_distinct)
  from assms(1) show ?thesis
    unfolding tree_delta_step_def td1 sum.case Let_def
    using d1 upd
    by (auto split: if_splits dest!: tree_delta_set_distinct)
qed

lemma fold_err_invariant:
  assumes "fold_err f xs s = Inr s'" and "P s"
    and "\<And>x a b. f x a = Inr b \<Longrightarrow> P a \<Longrightarrow> P b"
  shows "P s'"
  using assms(1,2)
proof (induction xs arbitrary: s)
  case Nil
  then show ?case by simp
next
  case (Cons x xs)
  then show ?case by (auto split: sum.splits intro: assms(3))
qed

lemma tree_delta_distinct:
  assumes "tree_delta ext lz gd c = Inr td"
  shows "distinct (map fst td)"
proof -
  from assms obtain diffs where "fold_err (tree_delta_step ext lz) diffs [] = Inr td"
    by (auto simp: tree_delta_def split: sum.splits)
  then show ?thesis
    by (rule fold_err_invariant [where P = "\<lambda>td. distinct (map fst td)"])
       (simp_all add: tree_delta_step_distinct)
qed

text \<open>
  C10. Applying a tree delta (a dict, so with distinct paths) to a snapshot gives a snapshot
  that maps every path with a deletion marker to nothing, every path with new stats to
  those stats, and every path that the delta does not mention to what it was mapped to
  before; deleting a path that the snapshot does not have leaves the snapshot as it is.
  In one iteration of the aggregator the delta totals are computed from the snapshot of the
  iteration's start, and the snapshot handed to the next iteration is that same snapshot
  with the delta applied: computing the totals changes nothing.
\<close>

theorem snapshot_frame:
  assumes "distinct (map fst delta_tree)"
  shows "(\<forall>p. (p, None) \<in> set delta_tree \<longrightarrow>
            map_of (apply_delta_to_tree previous_tree delta_tree) p = None)
       \<and> (\<forall>p new. (p, Some new) \<in> set delta_tree \<longrightarrow>
            map_of (apply_delta_to_tree previous_tree delta_tree) p = Some new)
       \<and> (\<forall>p. p \<notin> fst ` set delta_tree \<longrightarrow>
            map_of (apply_delta_to_tree previous_tree delta_tree) p = map_of previous_tree p)
       \<and> (\<forall>p. p \<notin> fst ` set previous_tree \<longrightarrow>
            apply_delta_to_tree previous_tree [(p, None)] = previous_tree)
       \<and> (\<forall>c heap pc heap' pc' t'.
            c < length heap \<longrightarrow>
            analyzeSizeAndComplexity_step ext lz gd c (heap, pc, previous_tree)
              = Inr (heap', pc', t') \<longrightarrow>
            (\<exists>td. tree_delta ext lz gd (commit (heap ! c)) = Inr td \<and>
                  distinct (map fst td) \<and>
                  deltaLoc (heap' ! c) = Some (fst (aggregate_delta previous_tree td)) \<and>
                  deltaCyclomaticComplexity (heap' ! c) =
                    Some (fst (snd (aggregate_delta previous_tree td))) \<and>
                  deltaFunctions (heap' ! c) =
                    Some (snd (snd (aggregate_delta previous_tree td))) \<and>
                  t' = apply_delta_to_tree previous_tree td))"
proof (intro conjI allI impI)
  fix p
  assume "(p, None) \<in> set delta_tree"
  with assms have "map_of delta_tree p = Some None" by (rule map_of_is_SomeI)
  then show "map_of (apply_delta_to_tree previous_tree delta_tree) p = None"
    by (simp add: map_of_apply_delta_to_tree [OF assms])
next
  fix p new
  assume "(p, Some new) \<in> set delta_tree"
  with assms have "map_of delta_tree p = Some (Some new)" by (rule map_of_is_SomeI)
  then show "map_of (apply_delta_to_tree previous_tree delta_tree) p = Some new"
    by (simp add: map_of_apply_delta_to_tree [OF assms])
next
  fix p
  assume "p \<notin> fst ` set delta_tree"
  then have "map_of delta_tree p = None" by (simp add: map_of_eq_None_iff)
  then show "map_of (apply_delta_to_tree previous_tree delta_tree) p = map_of previous_tree p"
    by (simp add: map_of_apply_delta_to_tree [OF assms])
next
  fix p
  assume "p \<notin> fst ` set previous_tree"
  then show "apply_delta_to_tree previous_tree [(p, None)] = previous_tree"
    by (simp add: apply_delta_to_tree_def)
next
  fix c heap pc heap' pc' t'
  assume c: "c < length heap"
    and step: "analyzeSizeAndComplexity_step ext lz gd c (heap, pc, previous_tree)
                 = Inr (heap', pc', t')"
  from analyzeSizeAndComplexity_step_Inr [OF step c] obtain td pl pcc pf where
    td: "tree_delta ext lz gd (commit (heap ! c)) = Inr td"
    and t': "t' = apply_delta_to_tree previous_tree td"
    and heap': "heap' = heap[c := (heap ! c)
                     \<lparr>loc := Some (pl + fst (aggregate_delta previous_tree td)),
                      deltaLoc := Some (fst (aggregate_delta previous_tree td)),
                      cyclomaticComplexity :=
                        Some (pcc + fst (snd (aggregate_delta previous_tree td))),
                      deltaCyclomaticComplexity :=
                        Some (fst (snd (aggregate_delta previous_tree td))),
                      functionsCount := Some (pf + snd (snd (aggregate_delta previous_tree td))),
                      deltaFunctions := Some (snd (snd (aggregate_delta previous_tree td)))\<rparr>]"
    by blast
  from heap' c have "deltaLoc (heap' ! c) = Some (fst (aggregate_delta previous_tree td))"
    and "deltaCyclomaticComplexity (heap' ! c) =
           Some (fst (snd (aggregate_delta previous_tree td)))"
    and "deltaFunctions (heap' ! c) = Some (snd (snd (aggregate_delta previous_tree td)))"
    by simp_all
  with td t' tree_delta_distinct [OF td]
  show "\<exists>td. tree_delta ext lz gd (commit (heap ! c)) = Inr td \<and>
                  distinct (map fst td) \<and>
                  deltaLoc (heap' ! c) = Some (fst (aggregate_delta previous_tree td)) \<and>
                  deltaCyclomaticComplexity (heap' ! c) =
                    Some (fst (snd (aggregate_delta previous_tree td))) \<and>
                  deltaFunctions (heap' ! c) =
                    Some (snd (snd (aggregate_delta previous_tree td))) \<and>
                  t' = apply_delta_to_tree previous_tree td"
    by blast
qed

theorem snapshot_frame_witness:
  "map_of (apply_delta_to_tree [(''a.c'', ex_stats1), (''b.c'', ex_stats1)]
             [(''a.c'', None), (''c.c'', Some ex_stats2)]) ''a.c'' = None
   \<and> map_of (apply_delta_to_tree [(''a.c'', ex_stats1), (''b.c'', ex_stats1)]
             [(''a.c'', None), (''c.c'', Some ex_stats2)]) ''c.c'' = Some ex_stats2
   \<and> map_of (apply_delta_to_tree [(''a.c'', ex_stats1), (''b.c'', ex_stats1)]
             [(''a.c'', None), (''c.c'', Some ex_stats2)]) ''b.c'' = Some ex_stats1
   \<and> apply_delta_to_tree [(''a.c'', ex_stats1), (''b.c'', ex_stats1)] [(''z.c'', None)]
       = [(''a.c'', ex_stats1), (''b.c'', ex_stats1)]
   \<and> (\<exists>heap' t'. analyzeSizeAndComplexity_step ex_supported ex_parser ex_git_diff 1
                      (ex_heap @ [ex_baseline], 3, []) = Inr (heap', 1, t')
          \<and> deltaLoc (heap' ! 1) = Some 10
          \<and> t' = apply_delta_to_tree [] [(''a.c'', Some ex_stats1)])"
proof -
  let ?t = "[(''a.c'', ex_stats1), (''b.c'', ex_stats1)]"
  let ?d = "[(''a.c'', None), (''c.c'', Some ex_stats2)]"
  have dist: "distinct (map fst ?d)" by simp
  note inst = snapshot_frame [OF dist, of ?t ex_supported ex_parser ex_git_diff]
  have m1: "(''a.c'', None) \<in> set ?d" by simp
  have m2: "(''c.c'', Some ex_stats2) \<in> set ?d" by simp
  have m3: "''b.c'' \<notin> fst ` set ?d" by simp
  have m4: "''z.c'' \<notin> fst ` set ?t" by simp
  from inst [THEN conjunct1, THEN spec, THEN mp, OF m1]
  have a: "map_of (apply_delta_to_tree ?t ?d) ''a.c'' = None" .
  from inst [THEN conjunct2, THEN conjunct1, THEN spec, THEN spec, THEN mp, OF m2]
  have b: "map_of (apply_delta_to_tree ?t ?d) ''c.c'' = Some ex_stats2" .
  from inst [THEN conjunct2, THEN conjunct2, THEN conjunct1, THEN spec, THEN mp, OF m3]
  have c: "map_of (apply_delta_to_tree ?t ?d) ''b.c'' = Some ex_stats1" by simp
  from inst [THEN conjunct2, THEN conjunct2, THEN conjunct2, THEN conjunct1, THEN spec,
             THEN mp, OF m4]
  have d: "apply_delta_to_tree ?t [(''z.c'', None)] = ?t" .
  have dist0: "distinct (map fst ([] :: (string \<times> BlobStats option) list))" by simp
  have len: "(1::nat) < length (ex_heap @ [ex_baseline])" by (simp add: ex_heap_def)
  obtain heap' t' where
    step: "analyzeSizeAndComplexity_step ex_supported ex_parser ex_git_diff 1
             (ex_heap @ [ex_baseline], 3, []) = Inr (heap', 1, t')"
  proof -
    have "\<exists>heap' t'. analyzeSizeAndComplexity_step ex_supported ex_parser ex_git_diff 1
             (ex_heap @ [ex_baseline], 3, []) = Inr (heap', 1, t')"
      apply (simp only: analyzeSizeAndComplexity_step_def split_conv ex_heap_commit1
               ex_tree_delta1 sum.case)
      apply (simp add: aggregate_delta_def aggregate_delta_step_def ex_heap_def
               ex_baseline_def Let_def eval_nat_numeral)
      done
    then show ?thesis using that by blast
  qed
  from snapshot_frame [OF dist0, of "[]" ex_supported ex_parser ex_git_diff,
         THEN conjunct2, THEN conjunct2, THEN conjunct2, THEN conjunct2,
         THEN spec, THEN spec, THEN spec, THEN spec, THEN spec, THEN spec,
         THEN mp, THEN mp, OF len step]
  obtain td where td: "tree_delta ex_supported ex_parser ex_git_diff
                         (commit ((ex_heap @ [ex_baseline]) ! 1)) = Inr td"
    and dl: "deltaLoc (heap' ! 1) = Some (fst (aggregate_delta [] td))"
    and t': "t' = apply_delta_to_tree [] td"
    by blast
  from td [unfolded ex_heap_commit1 ex_tree_delta1]
  have tdv: "td = [(''a.c'', Some ex_stats1)]" by simp
  from dl have e1: "deltaLoc (heap' ! 1) = Some 10"
    by (simp add: tdv aggregate_delta_def aggregate_delta_step_def ex_stats1_def)
  from step e1 t' tdv a b c d show ?thesis by blast
qed

section \<open>Absolute values and deltas of the size and complexity aggregator\<close>

lemma analyzeSizeAndComplexity_loop:
  assumes "fold_err (analyzeSizeAndComplexity_step ext lz gd) ds (h, pc, t) = Inr (h', pc', t')"
    and "distinct ds" and "\<forall>c\<in>set ds. c < length h" and "pc \<notin> set ds"
  shows "length h' = length h \<and> (\<forall>i. i \<notin> set ds \<longrightarrow> h' ! i = h ! i) \<and>
         (\<forall>k<length ds.
            \<exists>pl pcc pf dl dc df.
              loc (h' ! (if k = 0 then pc else ds ! (k - 1))) = Some pl \<and>
              cyclomaticComplexity (h' ! (if k = 0 then pc else ds ! (k - 1))) = Some pcc \<and>
              functionsCount (h' ! (if k = 0 then pc else ds ! (k - 1))) = Some pf \<and>
              deltaLoc (h' ! (ds ! k)) = Some dl \<and> loc (h' ! (ds ! k)) = Some (pl + dl) \<and>
              deltaCyclomaticComplexity (h' ! (ds ! k)) = Some dc \<and>
              cyclomaticComplexity (h' ! (ds ! k)) = Some (pcc + dc) \<and>
              deltaFunctions (h' ! (ds ! k)) = Some df \<and>
              functionsCount (h' ! (ds ! k)) = Some (pf + df))"
  using assms
proof (induction ds arbitrary: h pc t)
  case Nil
  then show ?case by simp
next
  case (Cons c rest)
  from Cons.prems(1) obtain h1 pc1 t1 where
    step: "analyzeSizeAndComplexity_step ext lz gd c (h, pc, t) = Inr (h1, pc1, t1)"
    and rest: "fold_err (analyzeSizeAndComplexity_step ext lz gd) rest (h1, pc1, t1)
                 = Inr (h', pc', t')"
    by (auto split: sum.splits)
  from Cons.prems have c: "c < length h" and cn: "c \<notin> set rest" and d: "distinct rest"
    and pcc: "pc \<noteq> c" and pcr: "pc \<notin> set rest" and v: "\<forall>x\<in>set rest. x < length h"
    by auto
  from analyzeSizeAndComplexity_step_Inr [OF step c] obtain td pl pcc pf where
    pc1: "pc1 = c" and len1: "length h1 = length h"
    and pl: "loc (h ! pc) = Some pl" and pcv: "cyclomaticComplexity (h ! pc) = Some pcc"
    and pf: "functionsCount (h ! pc) = Some pf"
    and h1: "h1 = h[c := (h ! c)
                     \<lparr>loc := Some (pl + fst (aggregate_delta t td)),
                      deltaLoc := Some (fst (aggregate_delta t td)),
                      cyclomaticComplexity := Some (pcc + fst (snd (aggregate_delta t td))),
                      deltaCyclomaticComplexity := Some (fst (snd (aggregate_delta t td))),
                      functionsCount := Some (pf + snd (snd (aggregate_delta t td))),
                      deltaFunctions := Some (snd (snd (aggregate_delta t td)))\<rparr>]"
    by blast
  have v1: "\<forall>x\<in>set rest. x < length h1" using v len1 by simp
  note IH = Cons.IH [OF rest [unfolded pc1] d v1 cn]
  from IH have len: "length h' = length h1"
    and frame: "\<And>i. i \<notin> set rest \<Longrightarrow> h' ! i = h1 ! i"
    by blast+
  have at_c: "h' ! c = h1 ! c" using cn by (rule frame)
  have at_pc: "h' ! pc = h ! pc" using frame [OF pcr] pcc h1 by simp
  have h1c: "h1 ! c = (h ! c)
                     \<lparr>loc := Some (pl + fst (aggregate_delta t td)),
                      deltaLoc := Some (fst (aggregate_delta t td)),
                      cyclomaticComplexity := Some (pcc + fst (snd (aggregate_delta t td))),
                      deltaCyclomaticComplexity := Some (fst (snd (aggregate_delta t td))),
                      functionsCount := Some (pf + snd (snd (aggregate_delta t td))),
                      deltaFunctions := Some (snd (snd (aggregate_delta t td)))\<rparr>"
    using h1 c by simp
  show ?case
  proof (intro conjI allI impI)
    show "length h' = length h" using len len1 by simp
  next
    fix i assume "i \<notin> set (c # rest)"
    then have "i \<notin> set rest" and "i \<noteq> c" by auto
    then show "h' ! i = h ! i" using frame [of i] h1 by simp
  next
    fix k assume k: "k < length (c # rest)"
    show "\<exists>pl pcc pf dl dc df.
              loc (h' ! (if k = 0 then pc else (c # rest) ! (k - 1))) = Some pl \<and>
              cyclomaticComplexity (h' ! (if k = 0 then pc else (c # rest) ! (k - 1))) = Some pcc \<and>
              functionsCount (h' ! (if k = 0 then pc else (c # rest) ! (k - 1))) = Some pf \<and>
              deltaLoc (h' ! ((c # rest) ! k)) = Some dl \<and>
              loc (h' ! ((c # rest) ! k)) = Some (pl + dl) \<and>
              deltaCyclomaticComplexity (h' ! ((c # rest) ! k)) = Some dc \<and>
              cyclomaticComplexity (h' ! ((c # rest) ! k)) = Some (pcc + dc) \<and>
              deltaFunctions (h' ! ((c # rest) ! k)) = Some df \<and>
              functionsCount (h' ! ((c # rest) ! k)) = Some (pf + df)"
    proof (cases k)
      case 0
      then show ?thesis using pl pcv pf by (simp add: at_c at_pc h1c)
    next
      case (Suc k')
      then have k': "k' < length rest" using k by simp
      have idx: "(if k = 0 then pc else (c # rest) ! (k - 1)) =
                 (if k' = 0 then c else rest ! (k' - 1))"
        using Suc by (cases k') simp_all
      have idx2: "(c # rest) ! k = rest ! k'" using Suc by simp
      from IH k' show ?thesis unfolding idx idx2 by blast
    qed
  qed
qed

text \<open>
  C1, amended. After the aggregator has run over a data set of distinct records, every
  element has its absolute and delta fields set, and each absolute field equals the
  corresponding absolute field of the record processed just before it plus the delta: for
  the first element that record is the fresh baseline record of its parent (allocated at
  the end of the store, holding the totals of the parent's tree), for every other element
  it is the preceding element of the data set. Where the \<open>previous\<close> link of an element
  points to the preceding element of the data set, this is the difference to \<open>C.previous\<close>.
\<close>

theorem delta_relative_to_previously_analyzed:
  assumes "analyzeSizeAndComplexity ext lz gd heap data = Inr heap'"
    and "distinct data" and "\<forall>c\<in>set data. c < length heap"
  shows "(\<forall>k<length data.
            \<exists>pl pcc pf dl dc df.
              loc (heap' ! (if k = 0 then length heap else data ! (k - 1))) = Some pl \<and>
              cyclomaticComplexity (heap' ! (if k = 0 then length heap else data ! (k - 1)))
                = Some pcc \<and>
              functionsCount (heap' ! (if k = 0 then length heap else data ! (k - 1)))
                = Some pf \<and>
              deltaLoc (heap' ! (data ! k)) = Some dl \<and>
              loc (heap' ! (data ! k)) = Some (pl + dl) \<and>
              deltaCyclomaticComplexity (heap' ! (data ! k)) = Some dc \<and>
              cyclomaticComplexity (heap' ! (data ! k)) = Some (pcc + dc) \<and>
              deltaFunctions (heap' ! (data ! k)) = Some df \<and>
              functionsCount (heap' ! (data ! k)) = Some (pf + df))
       \<and> (data \<noteq> [] \<longrightarrow>
            (\<exists>parent more. parents (commit (heap ! hd data)) = parent # more \<and>
               (loc (heap' ! length heap), cyclomaticComplexity (heap' ! length heap),
                functionsCount (heap' ! length heap)) =
               (case aggregate_stats_from_blobs (analyze_tree ext lz (tree parent)) of
                  (l, c, f) \<Rightarrow> (Some l, Some c, Some f))))
       \<and> (\<forall>i<length heap. i \<notin> set data \<longrightarrow> heap' ! i = heap ! i)"
proof (cases data)
  case Nil
  with assms(1) show ?thesis by (simp add: analyzeSizeAndComplexity_def)
next
  case (Cons c0 rest)
  from assms(1) Cons obtain parent more where
    par: "parents (commit (heap ! c0)) = parent # more"
    by (cases "parents (commit (heap ! c0))") (auto simp: analyzeSizeAndComplexity_def)
  obtain l cc f where
    agg: "aggregate_stats_from_blobs (analyze_tree ext lz (tree parent)) = (l, cc, f)"
    by (cases "aggregate_stats_from_blobs (analyze_tree ext lz (tree parent))") auto
  let ?base = "(new_AnnotatedCommit parent)
                 \<lparr>loc := Some l, cyclomaticComplexity := Some cc, functionsCount := Some f\<rparr>"
  let ?h0 = "heap @ [?base]"
  from assms(1) Cons par agg obtain pc' t' where
    loop: "fold_err (analyzeSizeAndComplexity_step ext lz gd) data
             (?h0, length heap, analyze_tree ext lz (tree parent)) = Inr (heap', pc', t')"
    by (auto simp: analyzeSizeAndComplexity_def Let_def split: sum.splits)
  have valid: "\<forall>c\<in>set data. c < length ?h0" using assms(3) by auto
  have fresh: "length heap \<notin> set data" using assms(3) by auto
  note inv = analyzeSizeAndComplexity_loop [OF loop assms(2) valid fresh]
  from inv have frame: "\<And>i. i \<notin> set data \<Longrightarrow> heap' ! i = ?h0 ! i" by blast
  have base: "heap' ! length heap = ?base" using frame [OF fresh] by simp
  show ?thesis
  proof (intro conjI)
    from inv show "\<forall>k<length data.
            \<exists>pl pcc pf dl dc df.
              loc (heap' ! (if k = 0 then length heap else data ! (k - 1))) = Some pl \<and>
              cyclomaticComplexity (heap' ! (if k = 0 then length heap else data ! (k - 1)))
                = Some pcc \<and>
              functionsCount (heap' ! (if k = 0 then length heap else data ! (k - 1)))
                = Some pf \<and>
              deltaLoc (heap' ! (data ! k)) = Some dl \<and>
              loc (heap' ! (data ! k)) = Some (pl + dl) \<and>
              deltaCyclomaticComplexity (heap' ! (data ! k)) = Some dc \<and>
              cyclomaticComplexity (heap' ! (data ! k)) = Some (pcc + dc) \<and>
              deltaFunctions (heap' ! (data ! k)) = Some df \<and>
              functionsCount (heap' ! (data ! k)) = Some (pf + df)"
      by blast
  next
    show "data \<noteq> [] \<longrightarrow>
            (\<exists>parent more. parents (commit (heap ! hd data)) = parent # more \<and>
               (loc (heap' ! length heap), cyclomaticComplexity (heap' ! length heap),
                functionsCount (heap' ! length heap)) =
               (case aggregate_stats_from_blobs (analyze_tree ext lz (tree parent)) of
                  (l, c, f) \<Rightarrow> (Some l, Some c, Some f)))"
      using par agg base Cons by simp
  next
    show "\<forall>i<length heap. i \<notin> set data \<longrightarrow> heap' ! i = heap ! i"
      using frame by (simp add: nth_append)
  qed
qed

theorem delta_relative_to_previously_analyzed_witness:
  "analyzeSizeAndComplexity ex_supported ex_parser ex_git_diff ex_heap [1, 2] = Inr ex_heap_sized
   \<and> (\<exists>pl dl. loc (ex_heap_sized ! 1) = Some pl \<and> deltaLoc (ex_heap_sized ! 2) = Some dl \<and>
                loc (ex_heap_sized ! 2) = Some (pl + dl))
   \<and> (\<exists>pl dl. loc (ex_heap_sized ! 3) = Some pl \<and> deltaLoc (ex_heap_sized ! 1) = Some dl \<and>
                loc (ex_heap_sized ! 1) = Some (pl + dl))
   \<and> deltaLoc (ex_heap_sized ! 2) = Some 2
   \<and> deltaCyclomaticComplexity (ex_heap_sized ! 2) = Some 17
   \<and> deltaFunctions (ex_heap_sized ! 2) = Some 0"
proof -
  note run = ex_analyzeSizeAndComplexity
  have dist: "distinct [1, 2 :: nat]" by simp
  have valid: "\<forall>c\<in>set [1, 2 :: nat]. c < length ex_heap" by (simp add: ex_heap_def)
  note inst = delta_relative_to_previously_analyzed [OF run dist valid, THEN conjunct1]
  have k1: "(1::nat) < length [1, 2 :: nat]" and k0: "(0::nat) < length [1, 2 :: nat]"
    by simp_all
  from inst [THEN spec, THEN mp, OF k1]
  have a: "\<exists>pl dl. loc (ex_heap_sized ! 1) = Some pl \<and> deltaLoc (ex_heap_sized ! 2) = Some dl \<and>
                loc (ex_heap_sized ! 2) = Some (pl + dl)"
    by simp blast
  from inst [THEN spec, THEN mp, OF k0]
  have b: "\<exists>pl dl. loc (ex_heap_sized ! 3) = Some pl \<and> deltaLoc (ex_heap_sized ! 1) = Some dl \<and>
                loc (ex_heap_sized ! 1) = Some (pl + dl)"
    by (simp add: ex_heap_nth) blast
  have c: "deltaLoc (ex_heap_sized ! 2) = Some 2"
    "deltaCyclomaticComplexity (ex_heap_sized ! 2) = Some 17"
    "deltaFunctions (ex_heap_sized ! 2) = Some 0"
    by (simp_all add: ex_heap_sized_def eval_nat_numeral)
  from run a b c show ?thesis by blast
qed

text \<open>
  C1 as stated fails. With the author of the second commit filtered out, the data set holds
  the third commit only; its chain predecessor is the record of the second commit, which
  the aggregator never annotates, while the delta of the third commit is taken against the
  baseline of 10 lines measured on the parent's tree: the delta is 2, the absolute value is
  12, and \<open>C.previous\<close> has no absolute value.
\<close>

theorem delta_against_chain_predecessor_counterexample:
  "createDataSet ex_filter_match (Inr ex_log) 0 10000 [''bob''] [] = Inr (ex_heap, [2])
   \<and> analyzeSizeAndComplexity ex_supported ex_parser ex_git_diff ex_heap [2]
       = Inr ex_heap_sized_filtered
   \<and> previous (ex_heap_sized_filtered ! 2) = Some 1
   \<and> loc (ex_heap_sized_filtered ! 1) = None
   \<and> loc (ex_heap_sized_filtered ! 2) = Some 12
   \<and> deltaLoc (ex_heap_sized_filtered ! 2) = Some 2
   \<and> \<not> delta_against_chain_predecessor ex_heap_sized_filtered 2"
  using ex_createDataSet ex_analyzeSizeAndComplexity_filtered
  by (simp add: delta_against_chain_predecessor_def field_difference_def
        ex_heap_sized_filtered_def ex_record_def new_AnnotatedCommit_def eval_nat_numeral)

section \<open>The first commit of the log in the report\<close>

lemma analyzeLevenshteinDistance_frame:
  assumes "analyzeLevenshteinDistance ext gd gdo heap data = Inr heap'"
    and "previous (heap ! c) = None"
  shows "heap' ! c = heap ! c"
proof -
  have "previous (heap' ! c) = None \<and> heap' ! c = heap ! c"
    using assms(1) unfolding analyzeLevenshteinDistance_def
  proof (rule fold_err_invariant [where P = "\<lambda>h. previous (h ! c) = None \<and> h ! c = heap ! c"])
    show "previous (heap ! c) = None \<and> heap ! c = heap ! c" using assms(2) by simp
  next
    fix x a b
    assume step: "(if previous (a ! x) = None then Inr a
             else case commitDistance ext gd gdo (commit (a ! x)) of
                    Inl e \<Rightarrow> Inl e
                  | Inr d \<Rightarrow> Inr (a[x := (a ! x)\<lparr>levenshteinDistance := Some d\<rparr>])) = Inr b"
      and inv: "previous (a ! c) = None \<and> a ! c = heap ! c"
    show "previous (b ! c) = None \<and> b ! c = heap ! c"
    proof (cases "previous (a ! x) = None")
      case True
      with step have "a = b" by simp
      with inv show ?thesis by blast
    next
      case False
      with inv have "x \<noteq> c" by auto
      with step False inv show ?thesis by (auto split: sum.splits)
    qed
  qed
  then show ?thesis by simp
qed

lemma tabulate_rows:
  "tabulate secondsToIso lower isalnum heap data activeCommitterInterval =
     table_header activeCommitterInterval #
     map (\<lambda>c. table_row secondsToIso lower isalnum (heap ! c))
       (filter (\<lambda>c. levenshteinDistance (heap ! c) \<noteq> Some 0) data)"
proof -
  have "fold (\<lambda>c table.
             if levenshteinDistance (heap ! c) = Some 0 then table
             else table @ [table_row secondsToIso lower isalnum (heap ! c)]) data acc =
        acc @ map (\<lambda>c. table_row secondsToIso lower isalnum (heap ! c))
                (filter (\<lambda>c. levenshteinDistance (heap ! c) \<noteq> Some 0) data)" for acc
    by (induction data arbitrary: acc) simp_all
  then show ?thesis by (simp add: tabulate_def)
qed

text \<open>
  C9. For an element of the data set whose \<open>previous\<close> link is \<open>None\<close> and whose edit
  distance is still unset, the edit-distance analyzer leaves the record as it is, so the
  distance stays \<open>None\<close> (not 0); tabulation, which drops the records whose distance equals
  0, keeps this record, and its row has \<open>None\<close> in the distance column (column 7, counted
  from 0), which the report writes as an empty field.
\<close>

theorem first_commit_keeps_unset_distance:
  assumes "analyzeLevenshteinDistance ext gd gdo heap data = Inr heap'"
    and "c \<in> set data"
    and "previous (heap ! c) = None"
    and "levenshteinDistance (heap ! c) = None"
  shows "levenshteinDistance (heap' ! c) = None
       \<and> levenshteinDistance (heap' ! c) \<noteq> Some 0
       \<and> table_row secondsToIso lower isalnum (heap' ! c)
            \<in> set (tabulate secondsToIso lower isalnum heap' data activeCommitterInterval)
       \<and> table_row secondsToIso lower isalnum (heap' ! c) ! 7 = CNone
       \<and> table_row secondsToIso lower isalnum (heap' ! c) ! 0 = CStr (hexsha (commit (heap ! c)))"
proof -
  have same: "heap' ! c = heap ! c"
    using assms(1,3) by (rule analyzeLevenshteinDistance_frame)
  then have none: "levenshteinDistance (heap' ! c) = None" using assms(4) by simp
  have "c \<in> set (filter (\<lambda>c. levenshteinDistance (heap' ! c) \<noteq> Some 0) data)"
    using assms(2) none by simp
  then have row: "table_row secondsToIso lower isalnum (heap' ! c)
            \<in> set (tabulate secondsToIso lower isalnum heap' data activeCommitterInterval)"
    unfolding tabulate_rows by (simp del: set_filter)
  have col: "table_row secondsToIso lower isalnum (heap' ! c) ! 7 = CNone"
    using none by (simp add: table_row_def cell_of_def eval_nat_numeral)
  have col0: "table_row secondsToIso lower isalnum (heap' ! c) ! 0 = CStr (hexsha (commit (heap ! c)))"
    using same by (simp add: table_row_def)
  from none row col col0 show ?thesis by simp
qed

theorem first_commit_keeps_unset_distance_witness:
  "createDataSet ex_filter_match (Inr ex_log_short) 0 10000 [] [] = Inr (ex_heap_short, [0, 1])
   \<and> analyzeLevenshteinDistance ex_supported ex_git_diff ex_git_diff_output ex_heap_short [0, 1]
       = Inr ex_heap_short_distance
   \<and> levenshteinDistance (ex_heap_short_distance ! 0) = None
   \<and> table_row (\<lambda>t. ''1970-01-01'') id (\<lambda>ch. True) (ex_heap_short_distance ! 0)
        \<in> set (tabulate (\<lambda>t. ''1970-01-01'') id (\<lambda>ch. True) ex_heap_short_distance [0, 1] 2592000)
   \<and> table_row (\<lambda>t. ''1970-01-01'') id (\<lambda>ch. True) (ex_heap_short_distance ! 0) ! 7 = CNone
   \<and> table_row (\<lambda>t. ''1970-01-01'') id (\<lambda>ch. True) (ex_heap_short_distance ! 0) ! 0 = CStr ''c1''"
proof -
  note run = ex_analyzeLevenshteinDistance_short
  have mem: "(0::nat) \<in> set [0, 1]" by simp
  have prev: "previous (ex_heap_short ! 0) = None"
    by (simp add: ex_heap_short_def ex_record_sel)
  have unset: "levenshteinDistance (ex_heap_short ! 0) = None"
    by (simp add: ex_heap_short_def ex_record_sel)
  have sha: "hexsha (commit (ex_heap_short ! 0)) = ''c1''"
    by (simp add: ex_heap_short_def ex_record_sel ex_commit1_def)
  from first_commit_keeps_unset_distance [OF run mem prev unset,
         of "\<lambda>t. ''1970-01-01''" id "\<lambda>ch. True" 2592000]
       ex_createDataSet_short run sha
  show ?thesis by simp
qed

section \<open>The complex-function finder\<close>

lemma fold_append_blobs:
  assumes "\<And>t acc. t \<in> set ts \<Longrightarrow>
             append_blobs ext acc t = acc @ filter (\<lambda>b. ext (path b)) (tree_blobs t)"
  shows "fold (\<lambda>subtree acc'. append_blobs ext acc' subtree) ts acc =
           acc @ filter (\<lambda>b. ext (path b)) (concat (map tree_blobs ts))"
  using assms by (induction ts arbitrary: acc) simp_all

lemma fold_append_supported:
  "fold (\<lambda>blob acc'. if ext (path blob) then acc' @ [blob] else acc') bs acc =
     acc @ filter (\<lambda>b. ext (path b)) bs"
  by (induction bs arbitrary: acc) simp_all

lemma append_blobs_tree_blobs:
  "append_blobs ext acc t = acc @ filter (\<lambda>b. ext (path b)) (tree_blobs t)"
proof (induction t arbitrary: acc)
  case (Tree bs ts)
  show ?case
    by (simp add: fold_append_blobs [OF Tree.IH] fold_append_supported)
qed

lemma fold_changed_blobs:
  "fold (\<lambda>diff acc. case b_blob diff of
                       None \<Rightarrow> acc
                     | Some b \<Rightarrow> if ext (path b) then acc @ [b] else acc) diffs acc =
     acc @ changed_blobs ext diffs"
  by (induction diffs arbitrary: acc)
     (simp_all add: changed_blobs_def List.map_filter_simps split: option.splits)

lemma blobs_to_scan_first:
  "blobs_to_scan ext gd (Suc 0) c = Inr (filter (\<lambda>b. ext (path b)) (tree_blobs (tree c)))"
  by (simp add: blobs_to_scan_def append_blobs_tree_blobs)

lemma blobs_to_scan_later:
  "0 < i \<Longrightarrow> blobs_to_scan ext gd (Suc i) c =
     (case parents c of [] \<Rightarrow> Inl IndexError
                      | parent # _ \<Rightarrow> Inr (changed_blobs ext (gd parent c)))"
  by (simp add: blobs_to_scan_def parent_diff_def fold_changed_blobs split: list.splits)

lemma record_function_observation:
  "record_function blob =
     (\<lambda>f. record_observation (path blob @ ''.'' @ name f, cyclomatic_complexity f))"
  by (rule ext)+
     (simp add: record_function_def record_observation_def Let_def split: option.splits)

lemma fold_concat_lists: "fold f (concat xss) s = fold (fold f) xss s"
  by (induction xss arbitrary: s) simp_all

lemma fold_scan_blob:
  "fold (scan_blob lz ff) bs cf = fold record_observation (observations lz ff bs) cf"
proof -
  have one: "scan_blob lz ff b = fold record_observation
               (if path b \<in> set ff then []
                else map (\<lambda>f. (path b @ ''.'' @ name f, cyclomatic_complexity f))
                       (lz (blob_name b) (data_stream b)))" for b
    by (auto simp: scan_blob_def fun_eq_iff fold_map comp_def record_function_observation)
  have "fold (scan_blob lz ff) bs cf =
        fold (fold record_observation)
          (map (\<lambda>b. if path b \<in> set ff then []
                else map (\<lambda>f. (path b @ ''.'' @ name f, cyclomatic_complexity f))
                       (lz (blob_name b) (data_stream b))) bs) cf"
    unfolding fold_map comp_def one [symmetric] ..
  then show ?thesis by (simp add: observations_def fold_concat_lists)
qed

lemma find_complex_functions_later:
  assumes "fold_err (\<lambda>c (i, complex_functions).
               case blobs_to_scan ext gd (i + 1) (commit (heap ! c)) of
                 Inl e \<Rightarrow> Inl e
               | Inr scan \<Rightarrow>
                   Inr (i + 1, fold (scan_blob lz ff) scan complex_functions))
             data (i, cf) = Inr (j, cf')"
    and "0 < i"
  shows "cf' = fold (scan_blob lz ff)
                 (concat (map (\<lambda>c. case parents c of
                                      [] \<Rightarrow> []
                                    | parent # _ \<Rightarrow> changed_blobs ext (gd parent c))
                            (map (\<lambda>c. commit (heap ! c)) data))) cf"
  using assms
proof (induction data arbitrary: i cf)
  case Nil
  then show ?case by simp
next
  case (Cons c data)
  note ne = Cons.prems(2)
  from Cons.prems(1) obtain parent more where par: "parents (commit (heap ! c)) = parent # more"
    by (cases "parents (commit (heap ! c))") (simp_all add: blobs_to_scan_later [OF ne])
  from Cons.prems(1) have rest:
    "fold_err (\<lambda>c (i, complex_functions).
               case blobs_to_scan ext gd (i + 1) (commit (heap ! c)) of
                 Inl e \<Rightarrow> Inl e
               | Inr scan \<Rightarrow>
                   Inr (i + 1, fold (scan_blob lz ff) scan complex_functions))
             data (i + 1, fold (scan_blob lz ff) (changed_blobs ext (gd parent (commit (heap ! c)))) cf)
       = Inr (j, cf')"
    by (simp add: blobs_to_scan_later [OF ne] par)
  have pos: "0 < i + 1" by simp
  from Cons.IH [OF rest pos] show ?case by (simp add: par)
qed

lemma find_complex_functions_measured:
  assumes "find_complex_functions ext lz gd heap data ff = Inr cf"
  shows "cf = fold record_observation
                (observations lz ff (measured_blobs ext gd (map (\<lambda>c. commit (heap ! c)) data))) []"
proof (cases data)
  case Nil
  with assms show ?thesis
    by (simp add: find_complex_functions_def measured_blobs_def observations_def)
next
  case (Cons c0 rest)
  from assms obtain j where
    loop: "fold_err (\<lambda>c (i, complex_functions).
               case blobs_to_scan ext gd (i + 1) (commit (heap ! c)) of
                 Inl e \<Rightarrow> Inl e
               | Inr scan \<Rightarrow>
                   Inr (i + 1, fold (scan_blob lz ff) scan complex_functions))
             rest (1, fold (scan_blob lz ff)
                        (filter (\<lambda>b. ext (path b)) (tree_blobs (tree (commit (heap ! c0))))) [])
           = Inr (j, cf)"
    by (auto simp: find_complex_functions_def Cons blobs_to_scan_first split: sum.splits)
  have pos: "(0::nat) < 1" by simp
  from find_complex_functions_later [OF loop pos]
  have "cf = fold (scan_blob lz ff)
               (measured_blobs ext gd (map (\<lambda>c. commit (heap ! c)) data)) []"
    by (simp add: measured_blobs_def Cons)
  then show ?thesis by (simp only: fold_scan_blob)
qed

lemma map_of_record_observation:
  "map_of (record_observation (m, w) cf) n =
     (if m = n \<and> 15 < w
      then Some (case map_of cf n of Some known \<Rightarrow> max w known | None \<Rightarrow> w)
      else map_of cf n)"
  by (simp add: record_observation_def update_conv')

lemma hits_Cons:
  "hits n ((m, w) # obs) = (if m = n \<and> 15 < w then w # hits n obs else hits n obs)"
  by (simp add: hits_def)

lemma map_of_fold_record_observation:
  "map_of (fold record_observation obs cf) n =
     (if hits n obs = [] then map_of cf n
      else Some (Max (set (hits n obs) \<union> set_option (map_of cf n))))"
proof (induction obs arbitrary: cf)
  case Nil
  show ?case by (simp add: hits_def)
next
  case (Cons ob obs)
  obtain m w where ob: "ob = (m, w)" by (cases ob)
  show ?case
  proof (cases "m = n \<and> 15 < w")
    case False
    then have f: "(m = n \<and> 15 < w) = False" by simp
    show ?thesis
      by (simp add: ob Cons.IH map_of_record_observation hits_Cons f)
  next
    case True
    let ?w' = "case map_of cf n of Some known \<Rightarrow> max w known | None \<Rightarrow> w"
    from True have mn: "m = n" and w15: "15 < w" by simp_all
    have new: "map_of (record_observation (n, w) cf) n = Some ?w'"
      using w15 by (simp add: map_of_record_observation)
    have hc: "hits n ((n, w) # obs) = w # hits n obs"
      using w15 by (simp add: hits_Cons)
    have w': "?w' = Max (insert w (set_option (map_of cf n)))"
      by (cases "map_of cf n") (simp_all add: max.commute)
    show ?thesis
    proof (cases "hits n obs = []")
      case True
      then show ?thesis
        by (simp add: ob mn Cons.IH new hc w')
    next
      case False
      have fin: "finite (set (hits n obs))" "finite (set_option (map_of cf n))" by simp_all
      have "Max (set (hits n obs) \<union> {?w'}) =
            Max (insert w (set (hits n obs)) \<union> set_option (map_of cf n))"
      proof -
        have "Max (set (hits n obs) \<union> {?w'}) = max (Max (set (hits n obs))) ?w'"
          using False by (simp add: Max_insert max.commute)
        also have "\<dots> = max (Max (set (hits n obs))) (Max (insert w (set_option (map_of cf n))))"
          by (simp only: w')
        also have "\<dots> = Max (set (hits n obs) \<union> insert w (set_option (map_of cf n)))"
          by (rule Max_Un [symmetric]) (use False in simp_all)
        finally show ?thesis by (simp add: Un_commute insert_commute)
      qed
      with False show ?thesis
        by (simp add: ob mn Cons.IH new hc)
    qed
  qed
qed

lemma Max_hits:
  assumes "hits n obs \<noteq> []"
  shows "Max (set (hits n obs)) = Max {v. (n, v) \<in> set obs}"
proof -
  have sub: "set (hits n obs) \<subseteq> {v. (n, v) \<in> set obs}" by (auto simp: hits_def)
  have eq: "{v. (n, v) \<in> set obs} = snd ` {ob \<in> set obs. fst ob = n}" by force
  have fin: "finite {v. (n, v) \<in> set obs}" unfolding eq by simp
  from assms obtain h where h: "h \<in> set (hits n obs)" by (cases "hits n obs") auto
  then have h15: "15 < h" by (auto simp: hits_def)
  from h sub have ne: "{v. (n, v) \<in> set obs} \<noteq> {}" by auto
  have "Max {v. (n, v) \<in> set obs} \<in> {v. (n, v) \<in> set obs}" using fin ne by (rule Max_in)
  moreover have "h \<le> Max {v. (n, v) \<in> set obs}" using fin h sub by (auto intro: Max_ge)
  ultimately have "Max {v. (n, v) \<in> set obs} \<in> set (hits n obs)"
    using h15 by (force simp: hits_def)
  then have "Max {v. (n, v) \<in> set obs} \<le> Max (set (hits n obs))" by (simp add: Max_ge)
  moreover have "Max (set (hits n obs)) \<le> Max {v. (n, v) \<in> set obs}"
    using assms fin sub by (intro Max_mono) simp_all
  ultimately show ?thesis by simp
qed

text \<open>
  C6. When the finder returns, its map holds, for every fully-qualified function name
  \<open>path.name\<close>, the largest complexity observed for that name over the whole walk if some
  observation of the name exceeded 15, and nothing otherwise. The walk measures the
  supported blobs of the whole tree of the first commit of the data set and the supported
  changed blobs of every later commit, each with the exception of the filtered files.
\<close>

theorem find_complex_functions_running_maximum:
  assumes "find_complex_functions ext lz gd heap data ff = Inr cf"
  shows "map_of cf n =
           (if \<exists>v. (n, v) \<in> set (observations lz ff
                       (measured_blobs ext gd (map (\<lambda>c. commit (heap ! c)) data))) \<and> 15 < v
            then Some (Max {v. (n, v) \<in> set (observations lz ff
                                (measured_blobs ext gd (map (\<lambda>c. commit (heap ! c)) data)))})
            else None)"
proof -
  let ?obs = "observations lz ff (measured_blobs ext gd (map (\<lambda>c. commit (heap ! c)) data))"
  have cf: "cf = fold record_observation ?obs []"
    using assms by (rule find_complex_functions_measured)
  have ex: "(\<exists>v. (n, v) \<in> set ?obs \<and> 15 < v) \<longleftrightarrow> hits n ?obs \<noteq> []"
    by (force simp: hits_def filter_empty_conv)
  show ?thesis
  proof (cases "hits n ?obs = []")
    case True
    then show ?thesis using ex by (simp add: cf map_of_fold_record_observation)
  next
    case False
    then show ?thesis
      using ex Max_hits [OF False] by (simp add: cf map_of_fold_record_observation)
  qed
qed

theorem find_complex_functions_running_maximum_witness:
  "find_complex_functions ex_supported ex_parser ex_git_diff ex_heap [1, 2] []
     = Inr [(''a.c.f'', 20)]
   \<and> (\<exists>v. (''a.c.f'', v) \<in> set (observations ex_parser []
              (measured_blobs ex_supported ex_git_diff (map (\<lambda>c. commit (ex_heap ! c)) [1, 2])))
           \<and> 15 < v)
   \<and> Max {v. (''a.c.f'', v) \<in> set (observations ex_parser []
              (measured_blobs ex_supported ex_git_diff (map (\<lambda>c. commit (ex_heap ! c)) [1, 2])))}
       = 20
   \<and> (''a.c.f'', 3) \<in> set (observations ex_parser []
              (measured_blobs ex_supported ex_git_diff (map (\<lambda>c. commit (ex_heap ! c)) [1, 2])))"
proof -
  note run = ex_find_complex_functions
  from find_complex_functions_running_maximum [OF run, of "''a.c.f''"]
  have eq: "Some 20 = (if \<exists>v. (''a.c.f'', v) \<in> set [(''a.c.f'', 3), (''a.c.f'', 20::int)] \<and> 15 < v
                       then Some (Max {v. (''a.c.f'', v) \<in> set [(''a.c.f'', 3), (''a.c.f'', 20::int)]})
                       else None)"
    unfolding ex_observations by simp
  have ex: "\<exists>v. (''a.c.f'', v) \<in> set [(''a.c.f'', 3), (''a.c.f'', 20::int)] \<and> 15 < v"
    by (rule exI [of _ 20]) simp
  from eq have mx: "Max {v. (''a.c.f'', v) \<in> set [(''a.c.f'', 3), (''a.c.f'', 20::int)]} = 20"
    unfolding if_P [OF ex] by simp
  have low: "(''a.c.f'', 3) \<in> set [(''a.c.f'', 3), (''a.c.f'', 20::int)]" by simp
  from run ex mx low show ?thesis unfolding ex_observations by (intro conjI)
qed

section \<open>Renaming a file without changing it\<close>









end
